theory Spec2Isabelle
  imports Main
begin

section \<open>The grid state of \<open>SudokuState\<close>\<close>

text \<open>
  \<open>self.state\<close> is a list of nine rows of nine slots. A slot holds a Python int (the value
  is known) or a Python list (the values the square could still take). Dictionaries
  returned by \<open>get_neighbors\<close> alias the list objects of the state, and
  \<open>fill_in_square\<close> rebinds a slot to an int without touching the list object that was
  there, so a dictionary built earlier still reads that object. The model keeps it:
  \<open>Fixed v old\<close> is a slot holding the int \<open>v\<close>, where \<open>old\<close> is the list object the slot
  held when it was filled in (\<open>[]\<close> for a slot that never held a list);
  \<open>Cands l\<close> is a slot holding the list \<open>l\<close>.
\<close>

type_synonym position = "nat \<times> nat"

datatype cell = Fixed int "int list" | Cands "int list"

type_synonym state = "cell list list"

datatype error = ValueError | IndexError | TypeError

abbreviation Return :: "'a \<Rightarrow> (error + 'a) option" where
  "Return x \<equiv> Some (Inr x)"

abbreviation Raise :: "error \<Rightarrow> (error + 'a) option" where
  "Raise e \<equiv> Some (Inl e)"

fun is_list :: "cell \<Rightarrow> bool" where
  "is_list (Cands l) = True"
| "is_list (Fixed v old) = False"

fun is_int :: "cell \<Rightarrow> bool" where
  "is_int (Fixed v old) = True"
| "is_int (Cands l) = False"

text \<open>The list object a dictionary entry for this slot refers to.\<close>

fun list_of :: "cell \<Rightarrow> int list" where
  "list_of (Cands l) = l"
| "list_of (Fixed v old) = old"

definition get_value_from_pos :: "state \<Rightarrow> position \<Rightarrow> cell" where
  "get_value_from_pos s position = s ! fst position ! snd position"

text \<open>The assignment \<open>self.state[position[0]][position[1]] = c\<close>.\<close>

definition set_value :: "state \<Rightarrow> position \<Rightarrow> cell \<Rightarrow> state" where
  "set_value s position c = s[fst position := (s ! fst position)[snd position := c]]"

text \<open>\<open>itertools.product(range(9), repeat=2)\<close>: all positions in row-major order.\<close>

definition all_positions :: "position list" where
  "all_positions = List.product [0..<9] [0..<9]"

text \<open>
  Assignment \<open>output[k] = ...\<close> to a Python dict, on the list of its keys in insertion
  order: a key that is already there keeps its place.
\<close>

definition dict_add :: "'k \<Rightarrow> 'k list \<Rightarrow> 'k list" where
  "dict_add k ks = (if k \<in> set ks then ks else ks @ [k])"

definition add_row_col :: "position \<Rightarrow> bool \<Rightarrow> bool \<Rightarrow> position list \<Rightarrow> nat \<Rightarrow> position list" where
  "add_row_col position sec0 sec1 output i =
     (let output1 = (if sec0 then dict_add (fst position, i) output else output)
      in if sec1 then dict_add (i, snd position) output1 else output1)"

definition add_box :: "position \<Rightarrow> position list \<Rightarrow> position \<Rightarrow> position list" where
  "add_box top_box_index output box_pos =
     dict_add (fst top_box_index + fst box_pos, snd top_box_index + snd box_pos) output"

text \<open>
  \<open>get_neighbors\<close> returns the keys of the dictionary, in its iteration order; the values
  are the slots of the state, read through \<open>get_value_from_pos\<close> and \<open>list_of\<close>.
  \<open>del output[position]\<close> finds the key whenever one of the three flags is set, which
  every call of the source does (lemma \<open>position_in_output\<close> below).
\<close>

definition neighbors_output :: "position \<Rightarrow> bool \<times> bool \<times> bool \<Rightarrow> position list" where
  "neighbors_output position section =
     (case section of (sec0, sec1, sec2) \<Rightarrow>
        let output1 = (if sec0 \<or> sec1
                       then foldl (add_row_col position sec0 sec1) [] [0..<9] else []);
            top_box_index = (fst position - fst position mod 3, snd position - snd position mod 3)
        in if sec2 then foldl (add_box top_box_index) output1 (List.product [0..<3] [0..<3])
           else output1)"

definition get_neighbors :: "position \<Rightarrow> bool \<times> bool \<times> bool \<Rightarrow> position list" where
  "get_neighbors position section = remove1 position (neighbors_output position section)"

definition get_empty_neighbours :: "state \<Rightarrow> position \<Rightarrow> bool \<times> bool \<times> bool \<Rightarrow> position list" where
  "get_empty_neighbours s position section =
     filter (\<lambda>p. is_list (get_value_from_pos s p)) (get_neighbors position section)"

definition get_empty_states :: "state \<Rightarrow> position list" where
  "get_empty_states s = filter (\<lambda>p. is_list (get_value_from_pos s p)) all_positions"

subsection \<open>Construction\<close>

definition init_state :: "int list list \<Rightarrow> state" where
  "init_state puzzle = map (map (\<lambda>num. Fixed num [])) puzzle"

definition remove_neighbour_value :: "state \<Rightarrow> int list \<Rightarrow> position \<Rightarrow> int list" where
  "remove_neighbour_value s possible_values p =
     (case get_value_from_pos s p of
        Fixed neighbour_value old \<Rightarrow>
          if neighbour_value > 0 \<and> neighbour_value \<in> set possible_values
          then remove1 neighbour_value possible_values else possible_values
      | Cands l \<Rightarrow> possible_values)"

definition setup_position :: "state \<Rightarrow> position \<Rightarrow> state" where
  "setup_position s position =
     (case get_value_from_pos s position of
        Fixed v old \<Rightarrow>
          if v = 0
          then set_value s position
                 (Cands (foldl (remove_neighbour_value s) [1..9]
                           (get_neighbors position (True, True, True))))
          else s
      | Cands l \<Rightarrow> s)"

text \<open>The method \<open>setup\<close> (the name is reserved in Isabelle).\<close>

definition setup_state :: "state \<Rightarrow> state" where
  "setup_state s = foldl setup_position s all_positions"

definition SudokuState :: "int list list \<Rightarrow> state" where
  "SudokuState puzzle = setup_state (init_state puzzle)"

subsection \<open>Candidate removal\<close>

text \<open>\<open>list.remove\<close> deletes the first occurrence and raises \<open>ValueError\<close> when there is none.\<close>

definition remove_value :: "state \<Rightarrow> position \<Rightarrow> int \<Rightarrow> error + state" where
  "remove_value s position v =
     (case get_value_from_pos s position of
        Cands l \<Rightarrow>
          if v \<in> set l then Inr (set_value s position (Cands (remove1 v l)))
          else Inl ValueError
      | Fixed w old \<Rightarrow> Inr s)"

section \<open>The propagator\<close>

text \<open>
  The first loop of \<open>fill_in_square\<close>: the value is removed from every empty neighbour
  that lists it. The result is the code returned early (\<open>-1\<close>) or \<open>0\<close>, with
  \<open>reduced_positions\<close> and the state.
\<close>

fun remove_from_neighbours ::
  "int \<Rightarrow> position list \<Rightarrow> position list \<Rightarrow> state \<Rightarrow> error + int \<times> position list \<times> state" where
  "remove_from_neighbours v [] reduced_positions s = Inr (0, reduced_positions, s)"
| "remove_from_neighbours v (neighbour_position # rest) reduced_positions s =
     (if v \<in> set (list_of (get_value_from_pos s neighbour_position))
      then (case remove_value s neighbour_position v of
              Inl e \<Rightarrow> Inl e
            | Inr s' \<Rightarrow>
                remove_from_neighbours v rest (reduced_positions @ [neighbour_position]) s')
      else if list_of (get_value_from_pos s neighbour_position) = []
      then Inr (- 1, reduced_positions, s)
      else remove_from_neighbours v rest reduced_positions s)"

text \<open>
  The three dictionaries \<open>emtpy_neighbour_sets\<close> of \<open>analise_empty_value\<close>, as key lists:
  the empty neighbours of the row, of the column and of the box, then the position itself.
  The entry of the position is a copy of its list (\<open>current_possible_values.copy()\<close>);
  the other entries alias the list objects of the state.
\<close>

definition emtpy_neighbour_sets :: "state \<Rightarrow> position \<Rightarrow> position list list" where
  "emtpy_neighbour_sets s position =
     map (\<lambda>i. get_empty_neighbours s position (i = 0, i = 1, i = 2) @ [position]) [0, 1, 2 :: nat]"

definition counts_of ::
  "state \<Rightarrow> position \<Rightarrow> int list \<Rightarrow> position list \<Rightarrow> int \<Rightarrow> position list" where
  "counts_of s position current_possible_values emtpy_neighbour_set v =
     filter (\<lambda>pos. v \<in> set (if pos = position then current_possible_values
                               else list_of (get_value_from_pos s pos)))
       emtpy_neighbour_set"

text \<open>
  \<open>fill_in_square\<close> and \<open>analise_empty_value\<close> call each other. The loops are written
  first, over the \<open>fill_in_square\<close> they call (the parameter \<open>fill\<close>); the recursion is
  closed below, where a natural number bounds the depth of nested \<open>fill_in_square\<close>
  calls and \<open>None\<close> means that the bound was reached.
\<close>

type_synonym outcome = "(error + int \<times> state) option"

type_synonym fill = "state \<Rightarrow> position \<Rightarrow> int \<Rightarrow> outcome"

text \<open>The loop \<open>for value in counts\<close> of \<open>analise_empty_value\<close>, for one dictionary.\<close>

fun analise_values ::
  "fill \<Rightarrow> state \<Rightarrow> position \<Rightarrow> int list \<Rightarrow> position list \<Rightarrow> int list \<Rightarrow> outcome" where
  "analise_values fill s position cur emtpy_neighbour_set [] = Return (0, s)"
| "analise_values fill s position cur emtpy_neighbour_set (v # rest) =
     (case counts_of s position cur emtpy_neighbour_set v of
        [pos] \<Rightarrow>
          (if is_list (get_value_from_pos s pos)
           then (case fill s pos v of
                   None \<Rightarrow> None
                 | Raise e \<Rightarrow> Raise e
                 | Return (outcome, s1) \<Rightarrow>
                     if outcome = - 1 then Return (- 1, s1)
                     else analise_values fill s1 position cur emtpy_neighbour_set rest)
           else analise_values fill s position cur emtpy_neighbour_set rest)
      | _ \<Rightarrow> analise_values fill s position cur emtpy_neighbour_set rest)"

text \<open>The loop over \<open>emtpy_neighbour_sets\<close>.\<close>

fun analise_sets ::
  "fill \<Rightarrow> state \<Rightarrow> position \<Rightarrow> int list \<Rightarrow> position list list \<Rightarrow> outcome" where
  "analise_sets fill s position cur [] = Return (0, s)"
| "analise_sets fill s position cur (emtpy_neighbour_set # rest) =
     (case analise_values fill s position cur emtpy_neighbour_set [1..9] of
        None \<Rightarrow> None
      | Raise e \<Rightarrow> Raise e
      | Return (outcome, s1) \<Rightarrow>
          if outcome = - 1 then Return (- 1, s1)
          else analise_sets fill s1 position cur rest)"

definition analise :: "fill \<Rightarrow> state \<Rightarrow> position \<Rightarrow> outcome" where
  "analise fill s position =
     (case get_value_from_pos s position of
        Fixed w old \<Rightarrow> Return (0, s)
      | Cands current_possible_values \<Rightarrow>
          if length current_possible_values = 0 then Return (- 1, s)
          else analise_sets fill s position current_possible_values
                 (emtpy_neighbour_sets s position))"

text \<open>The second loop of \<open>fill_in_square\<close>, over \<open>reduced_positions\<close>.\<close>

fun check_reduced :: "fill \<Rightarrow> state \<Rightarrow> position list \<Rightarrow> outcome" where
  "check_reduced fill s [] = Return (0, s)"
| "check_reduced fill s (reduced_position # rest) =
     (case analise fill s reduced_position of
        None \<Rightarrow> None
      | Raise e \<Rightarrow> Raise e
      | Return (outcome, s1) \<Rightarrow>
          if outcome = - 1 then Return (- 1, s1)
          else (case get_value_from_pos s1 reduced_position of
                  Fixed w old \<Rightarrow> check_reduced fill s1 rest
                | Cands l \<Rightarrow>
                    if length l = 0 then Return (- 1, s1)
                    else if length l = 1
                    then (case fill s1 reduced_position (hd l) of
                            None \<Rightarrow> None
                          | Raise e \<Rightarrow> Raise e
                          | Return (recursive_result, s2) \<Rightarrow>
                              if recursive_result = - 1 then Return (- 1, s2)
                              else check_reduced fill s2 rest)
                    else check_reduced fill s1 rest))"

definition fill_body :: "fill \<Rightarrow> state \<Rightarrow> position \<Rightarrow> int \<Rightarrow> outcome" where
  "fill_body fill s position v =
     (let empty_neighbours = get_empty_neighbours s position (True, True, True)
      in case get_value_from_pos s position of
           Fixed w old \<Rightarrow> Return (- 2, s)
         | Cands l \<Rightarrow>
             (case remove_from_neighbours v empty_neighbours []
                     (set_value s position (Fixed v l)) of
                Inl e \<Rightarrow> Raise e
              | Inr (outcome, reduced_positions, s1) \<Rightarrow>
                  if outcome = - 1 then Return (- 1, s1)
                  else check_reduced fill s1 reduced_positions))"

primrec fill_in_square :: "nat \<Rightarrow> state \<Rightarrow> position \<Rightarrow> int \<Rightarrow> outcome" where
  "fill_in_square 0 = (\<lambda>s position v. None)"
| "fill_in_square (Suc n) = fill_body (fill_in_square n)"

definition analise_empty_value :: "nat \<Rightarrow> state \<Rightarrow> position \<Rightarrow> outcome" where
  "analise_empty_value n = analise (fill_in_square n)"

subsection \<open>\<open>narrow\<close>\<close>

text \<open>
  \<open>get_sets\<close>: the row, the column and the box of a position, each as the key list of
  its dictionary (the neighbours of that section, then the position itself).
\<close>

definition get_sets :: "position \<Rightarrow> position list list" where
  "get_sets position =
     map (\<lambda>i. get_neighbors position (i = 0, i = 1, i = 2) @ [position]) [0, 1, 2 :: nat]"

text \<open>\<open>value in neighbour_set.values()\<close>: some slot of the set holds the int \<open>v\<close>.\<close>

definition filled_in :: "state \<Rightarrow> position list \<Rightarrow> int \<Rightarrow> bool" where
  "filled_in s neighbour_set v =
     (\<exists>p \<in> set neighbour_set.
        case get_value_from_pos s p of Fixed w old \<Rightarrow> w = v | Cands l \<Rightarrow> False)"

definition value_possible :: "state \<Rightarrow> position list \<Rightarrow> int \<Rightarrow> bool" where
  "value_possible s neighbour_set v =
     (\<exists>p \<in> set neighbour_set.
        case get_value_from_pos s p of Fixed w old \<Rightarrow> False | Cands l \<Rightarrow> v \<in> set l)"

definition narrow_positions :: "position list" where
  "narrow_positions = [(0, 0), (1, 3), (2, 6), (3, 1), (4, 4), (5, 7), (6, 2), (7, 5), (8, 8)]"

text \<open>The first loop nest of \<open>narrow\<close> reaches its \<open>return -1\<close>.\<close>

definition value_missing :: "state \<Rightarrow> bool" where
  "value_missing s =
     (\<exists>position \<in> set narrow_positions. \<exists>neighbour_set \<in> set (get_sets position).
        \<exists>v \<in> set [1..9]. \<not> filled_in s neighbour_set v \<and> \<not> value_possible s neighbour_set v)"

text \<open>The loop of \<open>narrow\<close> over the empty squares found at its start.\<close>

fun narrow_squares :: "fill \<Rightarrow> state \<Rightarrow> position list \<Rightarrow> outcome" where
  "narrow_squares fill s [] = Return (0, s)"
| "narrow_squares fill s (empty_pos # rest) =
     (case get_value_from_pos s empty_pos of
        Fixed w old \<Rightarrow> narrow_squares fill s rest
      | Cands l \<Rightarrow>
          if length l = 1
          then (case fill s empty_pos (hd l) of
                  None \<Rightarrow> None
                | Raise e \<Rightarrow> Raise e
                | Return (outcome, s1) \<Rightarrow>
                    if outcome = - 1 then Return (- 1, s1)
                    else narrow_squares fill s1 rest)
          else if length l = 0 then Return (- 1, s)
          else narrow_squares fill s rest)"

definition narrow :: "nat \<Rightarrow> state \<Rightarrow> outcome" where
  "narrow n s =
     (if value_missing s then Return (- 1, s)
      else let emtpy_squares = get_empty_states s
           in if length emtpy_squares = 0 then Return (1, s)
              else narrow_squares (fill_in_square n) s emtpy_squares)"

subsection \<open>Validation\<close>

definition check :: "state \<Rightarrow> int" where
  "check s =
     (if \<exists>position \<in> set all_positions.
           case get_value_from_pos s position of
             Fixed v old \<Rightarrow> filled_in s (get_neighbors position (True, True, True)) v
           | Cands l \<Rightarrow> False
      then - 1 else 0)"

definition is_solved :: "state \<Rightarrow> int" where
  "is_solved s =
     (if \<exists>position \<in> set all_positions. is_list (get_value_from_pos s position) then 0 else 1)"

section \<open>The search\<close>

definition increment :: "int \<Rightarrow> (int \<times> nat) list \<Rightarrow> (int \<times> nat) list" where
  "increment v constraints = map (\<lambda>(k, c). if k = v then (k, c + 1) else (k, c)) constraints"

definition count_neighbour :: "int list \<Rightarrow> (int \<times> nat) list \<Rightarrow> int list \<Rightarrow> (int \<times> nat) list" where
  "count_neighbour vs constraints possible_empty_neighbours_values =
     foldl (\<lambda>cs v. if v \<in> set possible_empty_neighbours_values then increment v cs else cs)
       constraints vs"

text \<open>
  \<open>constraints\<close> is a dictionary from the values of the square to counters, kept as an
  association list in insertion order; \<open>list.sort\<close> is stable, as \<open>sort_key\<close> is.
\<close>

definition least_constraining_value :: "state \<Rightarrow> position \<Rightarrow> error + int" where
  "least_constraining_value s position =
     (case get_value_from_pos s position of
        Fixed w old \<Rightarrow> Inl TypeError
      | Cands vs \<Rightarrow>
         (let empty_neighbours = get_empty_neighbours s position (True, True, True);
              constraints0 = map (\<lambda>v. (v, 0)) (foldl (\<lambda>ks k. dict_add k ks) [] vs);
              constraints = foldl (count_neighbour vs) constraints0
                              (map (\<lambda>p. list_of (get_value_from_pos s p)) empty_neighbours)
          in case sort_key snd constraints of
               [] \<Rightarrow> Inl IndexError
             | c # cs \<Rightarrow> Inr (fst c)))"

text \<open>
  The square with the fewest possible values: the first entry of the empty squares
  sorted (stably) by the length of their lists.
\<close>

definition square_to_edit :: "state \<Rightarrow> error + position" where
  "square_to_edit s =
     (case sort_key (\<lambda>p. length (list_of (get_value_from_pos s p))) (get_empty_states s) of
        [] \<Rightarrow> Inl IndexError
      | p # ps \<Rightarrow> Inr p)"

text \<open>
  One turn of the \<open>while\<close> loop of \<open>solve\<close> and what follows the loop, over the recursive
  \<open>solve\<close> and the rest of the loop. \<open>state_copy\<close> is the deep copy held by the frame;
  \<open>self.state = copy.deepcopy(state_copy)\<close> makes it the state again.
\<close>

definition solve_while ::
  "nat \<Rightarrow> (state \<Rightarrow> outcome) \<Rightarrow> (state \<Rightarrow> state \<Rightarrow> outcome) \<Rightarrow> position \<Rightarrow> state \<Rightarrow> state
     \<Rightarrow> outcome" where
  "solve_while n solve_rec while_rec sq s state_copy =
     (case get_value_from_pos s sq of
        Fixed w old \<Rightarrow> solve_rec s
      | Cands l \<Rightarrow>
          if l = [] then Return (- 1, s)
          else (case least_constraining_value s sq of
                  Inl e \<Rightarrow> Raise e
                | Inr guess_of_value \<Rightarrow>
                   (case fill_in_square n s sq guess_of_value of
                      None \<Rightarrow> None
                    | Raise e \<Rightarrow> Raise e
                    | Return (outcome_of_fill, s1) \<Rightarrow>
                       (case (if outcome_of_fill = 0 then solve_rec s1
                              else Return (outcome_of_fill, s1)) of
                          None \<Rightarrow> None
                        | Raise e \<Rightarrow> Raise e
                        | Return (outcome_of_guess, s2) \<Rightarrow>
                            if outcome_of_guess = 1 then Return (1, s2)
                            else if outcome_of_guess = - 1
                            then (case remove_value state_copy sq guess_of_value of
                                    Inl e \<Rightarrow> Raise e
                                  | Inr s3 \<Rightarrow>
                                     (case analise_empty_value n s3 sq of
                                        None \<Rightarrow> None
                                      | Raise e \<Rightarrow> Raise e
                                      | Return (outcome_of_analysis, s4) \<Rightarrow>
                                          if outcome_of_analysis = - 1 then Return (- 1, s4)
                                          else while_rec s4 s4))
                            else while_rec s2 state_copy))))"

definition solve_body ::
  "nat \<Rightarrow> (position \<Rightarrow> state \<Rightarrow> state \<Rightarrow> outcome) \<Rightarrow> state \<Rightarrow> outcome" where
  "solve_body n while_loop s =
     (case narrow n s of
        None \<Rightarrow> None
      | Raise e \<Rightarrow> Raise e
      | Return (outcome, s1) \<Rightarrow>
          if outcome \<noteq> 0 then Return (outcome, s1)
          else if is_solved s1 = 1 then Return (1, s1)
          else (case square_to_edit s1 of
                  Inl e \<Rightarrow> Raise e
                | Inr sq \<Rightarrow> while_loop sq s1 s1))"

text \<open>
  \<open>solve\<close> and its \<open>while\<close> loop. The first argument bounds the number of nested calls
  and loop turns; \<open>None\<close> means that the bound was reached.
\<close>

fun solve :: "nat \<Rightarrow> state \<Rightarrow> outcome"
and solve_loop :: "nat \<Rightarrow> position \<Rightarrow> state \<Rightarrow> state \<Rightarrow> outcome" where
  "solve 0 s = None"
| "solve (Suc n) s = solve_body n (solve_loop n) s"
| "solve_loop 0 sq s state_copy = None"
| "solve_loop (Suc n) sq s state_copy =
     solve_while n (solve n) (solve_loop n sq) sq s state_copy"

section \<open>The result array\<close>

text \<open>
  A numpy array of integers, as the nested list of its entries along its axes: an
  array of shape \<open>(9, 9)\<close> is an \<open>Axis\<close> of nine \<open>Axis\<close> of nine \<open>Elem\<close>. The same type
  holds the nested Python sequence handed to \<open>np.array\<close>. \<open>shape\<close> is the shape of a
  nested sequence whose parts at one depth all have one shape, and \<open>None\<close> for a ragged
  one (an int beside a list, or lists of different lengths).
\<close>

datatype ndarray = Elem int | Axis "ndarray list"

fun shape :: "ndarray \<Rightarrow> nat list option" where
  "shape (Elem v) = Some []"
| "shape (Axis []) = Some [0]"
| "shape (Axis (x # xs)) =
     (case shape x of
        None \<Rightarrow> None
      | Some sh \<Rightarrow>
          if \<forall>y \<in> set xs. shape y = Some sh then Some (Suc (length xs) # sh) else None)"

text \<open>
  \<open>np.array\<close> of a nested sequence of ints: the array of the same entries, and
  \<open>ValueError\<close> (inhomogeneous shape) for a ragged sequence, as NumPy does from version
  1.24. (Older versions made an array of objects from a ragged row; they too raise
  \<open>ValueError\<close> when the rows are arrays of different shapes.)
\<close>

definition np_array :: "ndarray \<Rightarrow> error + ndarray" where
  "np_array a = (case shape a of None \<Rightarrow> Inl ValueError | Some sh \<Rightarrow> Inr a)"

text \<open>The Python value of a slot of the state: an int, or a list of ints.\<close>

fun slot_value :: "cell \<Rightarrow> ndarray" where
  "slot_value (Fixed v old) = Elem v"
| "slot_value (Cands l) = Axis (map Elem l)"

text \<open>
  \<open>get_numpy_state\<close> calls \<open>np.array\<close> on every row and then on the list of the nine
  arrays. Each call raises \<open>ValueError\<close> on a ragged argument, and the arrays of the
  rows are stacked when they have one shape: the outcome is that of \<open>np.array\<close> on the
  nested list of the slots.
\<close>

definition get_numpy_state :: "state \<Rightarrow> error + ndarray" where
  "get_numpy_state s = np_array (Axis (map (\<lambda>row. Axis (map slot_value row)) s))"

text \<open>\<open>a[...] = c\<close> on an entry or on a sub-array: every number in it becomes \<open>c\<close>.\<close>

fun assign_all :: "int \<Rightarrow> ndarray \<Rightarrow> ndarray" where
  "assign_all c (Elem v) = Elem c"
| "assign_all c (Axis xs) = Axis (map (assign_all c) xs)"

text \<open>
  One turn of the loop of \<open>get_numpy_proper_state\<close>. No entry of a numpy array of
  numbers has the type \<open>list\<close>, so nothing is written when \<open>solvable\<close> is \<open>0\<close>. The state
  is 9x9, so both indices are in range for an array made from it.
\<close>

definition proper_entry :: "int \<Rightarrow> ndarray \<Rightarrow> position \<Rightarrow> ndarray" where
  "proper_entry solvable numpy_state position =
     (if solvable = 0 then numpy_state
      else if solvable = - 1
      then (case numpy_state of
              Elem v \<Rightarrow> numpy_state
            | Axis rows \<Rightarrow>
               (case rows ! fst position of
                  Elem v \<Rightarrow> numpy_state
                | Axis entries \<Rightarrow>
                    Axis (rows[fst position :=
                      Axis (entries[snd position :=
                        assign_all (- 1) (entries ! snd position)])])))
      else numpy_state)"

definition get_numpy_proper_state :: "state \<Rightarrow> int \<Rightarrow> error + ndarray" where
  "get_numpy_proper_state s solvable =
     (case get_numpy_state s of
        Inl e \<Rightarrow> Inl e
      | Inr numpy_state \<Rightarrow> Inr (foldl (proper_entry solvable) numpy_state all_positions))"

definition get_solved_numpy :: "nat \<Rightarrow> state \<Rightarrow> (error + ndarray) option" where
  "get_solved_numpy n s =
     (let is_already_unsolvable = check s
      in if is_already_unsolvable = - 1 then Some (get_numpy_proper_state s (- 1))
         else (case solve n s of
                 None \<Rightarrow> None
               | Raise e \<Rightarrow> Raise e
               | Return (outcome, s1) \<Rightarrow> Some (get_numpy_proper_state s1 outcome)))"

definition sudoku_solver :: "nat \<Rightarrow> int list list \<Rightarrow> (error + ndarray) option" where
  "sudoku_solver n sudoku_puzzle = get_solved_numpy n (SudokuState sudoku_puzzle)"

section \<open>Well-formed states\<close>

definition in_range :: "position \<Rightarrow> bool" where
  "in_range p = (fst p < 9 \<and> snd p < 9)"

definition wf_state :: "state \<Rightarrow> bool" where
  "wf_state s = (length s = 9 \<and> (\<forall>row \<in> set s. length row = 9))"

section \<open>Example states\<close>

text \<open>
  The state built from the grid whose only given is a 5 in the top left corner: the
  squares of its row, column and box have lost the 5.
\<close>

definition no5 :: cell where
  "no5 = Cands [1, 2, 3, 4, 6, 7, 8, 9]"

definition every :: cell where
  "every = Cands [1, 2, 3, 4, 5, 6, 7, 8, 9]"

definition one_five_state :: state where
  "one_five_state =
     [Fixed 5 [] # replicate 8 no5,
      replicate 3 no5 @ replicate 6 every,
      replicate 3 no5 @ replicate 6 every,
      no5 # replicate 8 every, no5 # replicate 8 every, no5 # replicate 8 every,
      no5 # replicate 8 every, no5 # replicate 8 every, no5 # replicate 8 every]"

section \<open>Vocabulary of the properties\<close>

definition row_cells :: "position \<Rightarrow> position set" where
  "row_cells p = {q. in_range q \<and> fst q = fst p}"

definition col_cells :: "position \<Rightarrow> position set" where
  "col_cells p = {q. in_range q \<and> snd q = snd p}"

definition box_cells :: "position \<Rightarrow> position set" where
  "box_cells p = {q. in_range q \<and> fst q div 3 = fst p div 3 \<and> snd q div 3 = snd p div 3}"

definition lists_ok :: "state \<Rightarrow> bool" where
  "lists_ok s = (\<forall>p. in_range p \<longrightarrow>
     sorted_wrt (<) (list_of (get_value_from_pos s p)) \<and>
     set (list_of (get_value_from_pos s p)) \<subseteq> {1..9})"

definition values_ok :: "state \<Rightarrow> bool" where
  "values_ok s = (\<forall>p. in_range p \<longrightarrow>
     (case get_value_from_pos s p of Fixed v old \<Rightarrow> 1 \<le> v \<and> v \<le> 9 | Cands l \<Rightarrow> True))"

definition good :: "state \<Rightarrow> bool" where
  "good s = (wf_state s \<and> lists_ok s \<and> values_ok s)"

definition evolves :: "state \<Rightarrow> state \<Rightarrow> bool" where
  "evolves s s' = (\<forall>p. in_range p \<longrightarrow>
     (case get_value_from_pos s p of
        Fixed v old \<Rightarrow> get_value_from_pos s' p = Fixed v old
      | Cands l \<Rightarrow> set (list_of (get_value_from_pos s' p)) \<subseteq> set l))"

definition post :: "int set \<Rightarrow> state \<Rightarrow> outcome \<Rightarrow> bool" where
  "post codes s res =
     (case res of
        None \<Rightarrow> True
      | Raise e \<Rightarrow> False
      | Return (r, s') \<Rightarrow> r \<in> codes \<and> good s' \<and> evolves s s')"

definition fill_ok :: "fill \<Rightarrow> bool" where
  "fill_ok fill = (\<forall>s p v. good s \<and> in_range p \<and> 1 \<le> v \<and> v \<le> 9
      \<longrightarrow> post {0, - 1, - 2} s (fill s p v))"

definition spost :: "state \<Rightarrow> outcome \<Rightarrow> bool" where
  "spost s res = (post {1, - 1} s res \<and> (\<forall>s'. res = Return (1, s') \<longrightarrow> is_solved s' = 1))"

definition proper_grid :: "int list list \<Rightarrow> bool" where
  "proper_grid g = (length g = 9 \<and> (\<forall>row \<in> set g. length row = 9 \<and> (\<forall>n \<in> set row. 0 \<le> n \<and> n \<le> 9)))"

definition grid_at :: "int list list \<Rightarrow> position \<Rightarrow> int" where
  "grid_at g p = g ! fst p ! snd p"

definition initial_candidates :: "int list list \<Rightarrow> position \<Rightarrow> int list" where
  "initial_candidates g p =
     filter (\<lambda>d. \<forall>q \<in> set (get_neighbors p (True, True, True)). grid_at g q \<noteq> d)
       [1, 2, 3, 4, 5, 6, 7, 8, 9]"

text \<open>The state while the constructor runs: the squares in \<open>D\<close> have been visited.\<close>

definition setup_inv :: "int list list \<Rightarrow> position set \<Rightarrow> state \<Rightarrow> bool" where
  "setup_inv g D s = (wf_state s \<and> (\<forall>p. in_range p \<longrightarrow>
     (if grid_at g p \<noteq> 0 then get_value_from_pos s p = Fixed (grid_at g p) []
      else if p \<in> D then get_value_from_pos s p = Cands (initial_candidates g p)
      else get_value_from_pos s p = Fixed 0 [])))"

definition all_minus_one :: ndarray where
  "all_minus_one = Axis (replicate 9 (Axis (replicate 9 (Elem (- 1)))))"

definition state_array :: "state \<Rightarrow> ndarray" where
  "state_array s = Axis (map (\<lambda>row. Axis (map slot_value row)) s)"


definition ascending :: "state \<Rightarrow> bool" where
  "ascending s = (\<forall>p l. in_range p \<and> get_value_from_pos s p = Cands l
      \<longrightarrow> sorted_wrt (<) l \<and> set l \<subseteq> {1..9})"

inductive reachable :: "state \<Rightarrow> bool" where
  construct: "proper_grid g \<Longrightarrow> reachable (SudokuState g)"
| assign: "reachable s \<Longrightarrow> get_value_from_pos s p = Cands l \<Longrightarrow> 1 \<le> v \<Longrightarrow> v \<le> 9
     \<Longrightarrow> reachable (set_value s p (Fixed v l))"
| remove: "reachable s \<Longrightarrow> remove_value s p v = Inr s' \<Longrightarrow> reachable s'"
| fill_in: "reachable s \<Longrightarrow> in_range p \<Longrightarrow> 1 \<le> v \<Longrightarrow> v \<le> 9
     \<Longrightarrow> fill_in_square n s p v = Return (r, s') \<Longrightarrow> reachable s'"
| analise: "reachable s \<Longrightarrow> in_range p \<Longrightarrow> analise_empty_value n s p = Return (r, s')
     \<Longrightarrow> reachable s'"
| narrowed: "reachable s \<Longrightarrow> narrow n s = Return (r, s') \<Longrightarrow> reachable s'"
| solved: "reachable s \<Longrightarrow> solve n s = Return (r, s') \<Longrightarrow> reachable s'"

definition zero_grid :: "int list list" where
  "zero_grid = replicate 9 (replicate 9 0)"

definition five_row :: "int list list" where
  "five_row = replicate 9 5 # replicate 8 (replicate 9 0)"

definition unit_lacks :: "state \<Rightarrow> position set \<Rightarrow> int \<Rightarrow> bool" where
  "unit_lacks s u v = (\<forall>q \<in> u. case get_value_from_pos s q of
                                   Fixed w old \<Rightarrow> w \<noteq> v | Cands l \<Rightarrow> v \<notin> set l)"

definition low_state :: state where
  "low_state = replicate 9 (replicate 9 (Cands [1, 2]))"

text \<open>A state in which \<open>sq\<close> is the only square that may hold a list.\<close>

definition lone_square :: "state \<Rightarrow> position \<Rightarrow> bool" where
  "lone_square s sq = (wf_state s \<and> in_range sq \<and>
     (\<forall>q. in_range q \<and> q \<noteq> sq \<longrightarrow> is_int (get_value_from_pos s q)))"

text \<open>The grid with an empty top left square and a 3 in every other square.\<close>

definition three_grid :: "int list list" where
  "three_grid = (0 # replicate 8 3) # replicate 8 (replicate 9 3)"

definition value_at :: "state \<Rightarrow> position \<Rightarrow> int" where
  "value_at s q = (case get_value_from_pos s q of Fixed v old \<Rightarrow> v | Cands l \<Rightarrow> 0)"

definition units_of :: "position \<Rightarrow> position set set" where
  "units_of p = {row_cells p, col_cells p, box_cells p}"


text \<open>Every square that holds an int in \<open>s\<close> holds the same int in \<open>s'\<close>.\<close>

definition keeps_ints :: "state \<Rightarrow> state \<Rightarrow> bool" where
  "keeps_ints s s' = (\<forall>p v old. in_range p \<and> get_value_from_pos s p = Fixed v old
      \<longrightarrow> get_value_from_pos s' p = Fixed v old)"


text \<open>A \<open>fill_in_square\<close> that always answers \<open>-2\<close> and leaves the state as it is.\<close>

definition answers_filled :: fill where
  "answers_filled = (\<lambda>s position v. Return (- 2, s))"

definition seven_state :: state where
  "seven_state = set_value one_five_state (0, 2) (Cands [7])"

text \<open>
  The number of empty neighbours of \<open>sq\<close> whose list contains \<open>d\<close>; the neighbours are the
  keys of the dictionary \<open>get_neighbors\<close>, each counted once.
\<close>

definition neighbour_count :: "state \<Rightarrow> position \<Rightarrow> int \<Rightarrow> nat" where
  "neighbour_count s sq d =
     length (filter (\<lambda>q. case get_value_from_pos s q of
                            Fixed w old \<Rightarrow> False | Cands l \<Rightarrow> d \<in> set l)
               (get_neighbors sq (True, True, True)))"

text \<open>
  The grid with a 3 in every square except the empty squares \<open>(0, 0)\<close> and \<open>(0, 2)\<close> and
  a 2 in the square \<open>(5, 2)\<close>.
\<close>

definition two_grid :: "int list list" where
  "two_grid =
     (0 # 3 # 0 # replicate 6 3) # replicate 4 (replicate 9 3) @
     [3 # 3 # 2 # replicate 6 3] @ replicate 3 (replicate 9 3)"

section \<open>Basic facts\<close>

lemma wf_set_value:
  assumes "wf_state s"
  shows "wf_state (set_value s p c)"
proof (cases "fst p < length s")
  case True
  have "set (set_value s p c) \<subseteq> insert ((s ! fst p)[snd p := c]) (set s)"
    by (simp add: set_value_def set_update_subset_insert)
  moreover have "length ((s ! fst p)[snd p := c]) = 9"
    using True assms by (simp add: wf_state_def)
  ultimately show ?thesis
    using assms by (auto simp: wf_state_def set_value_def)
next
  case False
  then have "set_value s p c = s"
    by (simp add: set_value_def list_update_beyond)
  then show ?thesis
    using assms by simp
qed

lemma get_set_value:
  "wf_state s \<Longrightarrow> in_range p \<Longrightarrow>
   get_value_from_pos (set_value s p c) q = (if q = p then c else get_value_from_pos s q)"
  by (cases p; cases q)
     (auto simp: wf_state_def in_range_def set_value_def get_value_from_pos_def nth_list_update)

lemma one_five_state_0_0: "get_value_from_pos one_five_state (0, 0) = Fixed 5 []"
  by (simp add: one_five_state_def get_value_from_pos_def)

lemma one_five_state_0_2:
  "get_value_from_pos one_five_state (0, 2) = Cands [1, 2, 3, 4, 6, 7, 8, 9]"
  by (simp add: one_five_state_def get_value_from_pos_def no5_def)

lemma wf_one_five_state: "wf_state one_five_state"
  by (simp add: one_five_state_def wf_state_def)

section \<open>Candidate removal (claim C5)\<close>

text \<open>
  Claim C5 says that \<open>remove_value\<close> is a no-op, and does not fail, both on a square that
  holds an int and on a square whose list does not contain the digit. The second half
  fails: \<open>list.remove\<close> raises \<open>ValueError\<close>. In the state \<open>one_five_state\<close> the square
  \<open>(0, 2)\<close> lists every digit but 5, and removing 5 from it raises.
\<close>

theorem remove_value_absent_counterexample:
  "get_value_from_pos one_five_state (0, 2) = Cands [1, 2, 3, 4, 6, 7, 8, 9] \<and>
   remove_value one_five_state (0, 2) 5 = Inl ValueError"
  by (simp add: remove_value_def one_five_state_0_2)

text \<open>
  Claim C5, amended: on a square that holds an int, \<open>remove_value\<close> returns with the
  state unchanged; on a square whose list does not contain the digit it raises
  \<open>ValueError\<close>.
\<close>

theorem remove_value_fixed_or_absent:
  "(is_int (get_value_from_pos s position) \<longrightarrow> remove_value s position d = Inr s) \<and>
   (is_list (get_value_from_pos s position) \<and> d \<notin> set (list_of (get_value_from_pos s position))
      \<longrightarrow> remove_value s position d = Inl ValueError)"
  by (cases "get_value_from_pos s position") (simp_all add: remove_value_def)

theorem remove_value_fixed_or_absent_witness:
  "is_int (get_value_from_pos one_five_state (0, 0)) \<and>
   remove_value one_five_state (0, 0) 5 = Inr one_five_state \<and>
   is_list (get_value_from_pos one_five_state (0, 2)) \<and>
   5 \<notin> set (list_of (get_value_from_pos one_five_state (0, 2))) \<and>
   remove_value one_five_state (0, 2) 5 = Inl ValueError"
  using remove_value_fixed_or_absent [of one_five_state "(0, 0)" 5]
    remove_value_fixed_or_absent [of one_five_state "(0, 2)" 5]
  by (simp add: one_five_state_0_0 one_five_state_0_2)

lemma set_all_positions: "set all_positions = {p. in_range p}"
  by (auto simp: all_positions_def in_range_def)


lemma set_dict_add: "set (dict_add k ks) = insert k (set ks)"
  by (auto simp: dict_add_def)

lemma distinct_dict_add: "distinct ks \<Longrightarrow> distinct (dict_add k ks)"
  by (simp add: dict_add_def)

lemma set_foldl_add_row_col:
  "set (foldl (add_row_col p sec0 sec1) out xs) =
     set out \<union> (if sec0 then (\<lambda>i. (fst p, i)) ` set xs else {})
             \<union> (if sec1 then (\<lambda>i. (i, snd p)) ` set xs else {})"
  by (induction xs arbitrary: out) (auto simp: add_row_col_def set_dict_add Let_def)

lemma distinct_foldl_add_row_col:
  "distinct out \<Longrightarrow> distinct (foldl (add_row_col p sec0 sec1) out xs)"
  by (induction xs arbitrary: out) (auto simp: add_row_col_def distinct_dict_add Let_def)

lemma set_foldl_add_box:
  "set (foldl (add_box t) out xs) =
     set out \<union> (\<lambda>bp. (fst t + fst bp, snd t + snd bp)) ` set xs"
  by (induction xs arbitrary: out) (auto simp: add_box_def set_dict_add)

lemma distinct_foldl_add_box:
  "distinct out \<Longrightarrow> distinct (foldl (add_box t) out xs)"
  by (induction xs arbitrary: out) (auto simp: add_box_def distinct_dict_add)

lemma box_image:
  assumes "in_range p"
  shows "(\<lambda>bp. (fst (fst p - fst p mod 3, snd p - snd p mod 3) + fst bp,
                snd (fst p - fst p mod 3, snd p - snd p mod 3) + snd bp))
           ` set (List.product [0..<3] [0..<3]) = box_cells p"
    (is "?f ` ?B = _")
proof -
  have f: "?f = (\<lambda>bp. (3 * (fst p div 3) + fst bp, 3 * (snd p div 3) + snd bp))"
    by (simp only: fst_conv snd_conv minus_mod_eq_mult_div)
  have lt: "fst p div 3 \<le> 2" "snd p div 3 \<le> 2"
    using assms by (auto simp: in_range_def)
  show ?thesis
  proof (rule set_eqI, rule iffI)
    fix q assume "q \<in> ?f ` ?B"
    then obtain i j where ij: "i < 3" "j < 3"
        "q = (3 * (fst p div 3) + i, 3 * (snd p div 3) + j)"
      unfolding f by auto
    then show "q \<in> box_cells p"
      using lt by (simp add: box_cells_def in_range_def)
  next
    fix q assume q: "q \<in> box_cells p"
    have "fst q = 3 * (fst p div 3) + fst q mod 3" "snd q = 3 * (snd p div 3) + snd q mod 3"
      using q by (simp_all add: box_cells_def) (metis mult_div_mod_eq)+
    then have "q = (3 * (fst p div 3) + fst q mod 3, 3 * (snd p div 3) + snd q mod 3)"
      by (simp add: prod_eq_iff)
    also have "\<dots> = ?f (fst q mod 3, snd q mod 3)"
      by (simp only: fst_conv snd_conv minus_mod_eq_mult_div)
    finally have "q = ?f (fst q mod 3, snd q mod 3)" .
    moreover have "(fst q mod 3, snd q mod 3) \<in> ?B"
      by simp
    ultimately show "q \<in> ?f ` ?B"
      by (rule image_eqI)
  qed
qed

lemma row_image: "in_range p \<Longrightarrow> (\<lambda>i. (fst p, i)) ` set [0..<9] = row_cells p"
  by (auto simp: row_cells_def in_range_def image_iff)

lemma col_image: "in_range p \<Longrightarrow> (\<lambda>i. (i, snd p)) ` set [0..<9] = col_cells p"
  by (auto simp: col_cells_def in_range_def image_iff)

lemma set_neighbors_output:
  assumes "in_range p"
  shows "set (neighbors_output p (sec0, sec1, sec2)) =
     (if sec0 then row_cells p else {}) \<union> (if sec1 then col_cells p else {})
       \<union> (if sec2 then box_cells p else {})"
  unfolding neighbors_output_def Let_def prod.case
  by (simp only: set_foldl_add_row_col set_foldl_add_box box_image [OF assms]
        row_image [OF assms] col_image [OF assms] if_distrib [of set] list.set split: if_splits)
     auto

lemma distinct_neighbors_output: "distinct (neighbors_output p (sec0, sec1, sec2))"
  by (simp add: neighbors_output_def distinct_foldl_add_row_col distinct_foldl_add_box Let_def)

lemma set_get_neighbors:
  "in_range p \<Longrightarrow> set (get_neighbors p (sec0, sec1, sec2)) =
     ((if sec0 then row_cells p else {}) \<union> (if sec1 then col_cells p else {})
       \<union> (if sec2 then box_cells p else {})) - {p}"
  by (simp add: get_neighbors_def distinct_neighbors_output set_neighbors_output
           del: remove1.simps)

lemma distinct_get_neighbors: "distinct (get_neighbors p (sec0, sec1, sec2))"
  by (simp add: get_neighbors_def distinct_neighbors_output)

lemma position_in_output:
  "in_range p \<Longrightarrow> sec0 \<or> sec1 \<or> sec2 \<Longrightarrow> p \<in> set (neighbors_output p (sec0, sec1, sec2))"
  by (auto simp: set_neighbors_output row_cells_def col_cells_def box_cells_def)

lemma evolves_refl: "evolves s s"
  by (auto simp: evolves_def split: cell.splits)

lemma evolves_trans: "evolves s t \<Longrightarrow> evolves t u \<Longrightarrow> evolves s u"
  unfolding evolves_def
proof (intro allI impI)
  fix p assume a: "\<forall>p. in_range p \<longrightarrow> (case get_value_from_pos s p of Fixed v old \<Rightarrow> get_value_from_pos t p = Fixed v old | Cands l \<Rightarrow> set (list_of (get_value_from_pos t p)) \<subseteq> set l)"
    and b: "\<forall>p. in_range p \<longrightarrow> (case get_value_from_pos t p of Fixed v old \<Rightarrow> get_value_from_pos u p = Fixed v old | Cands l \<Rightarrow> set (list_of (get_value_from_pos u p)) \<subseteq> set l)"
    and p: "in_range p"
  show "case get_value_from_pos s p of Fixed v old \<Rightarrow> get_value_from_pos u p = Fixed v old | Cands l \<Rightarrow> set (list_of (get_value_from_pos u p)) \<subseteq> set l"
    using a[rule_format, OF p] b[rule_format, OF p]
    by (cases "get_value_from_pos s p"; cases "get_value_from_pos t p") auto
qed

lemma set_value_out_of_range: "wf_state s \<Longrightarrow> \<not> in_range p \<Longrightarrow> set_value s p c = s"
  by (cases "fst p < 9")
     (auto simp: set_value_def in_range_def wf_state_def list_update_beyond list_update_same_conv)

lemma lists_okD:
  "lists_ok s \<Longrightarrow> in_range p \<Longrightarrow>
   sorted_wrt (<) (list_of (get_value_from_pos s p)) \<and>
   set (list_of (get_value_from_pos s p)) \<subseteq> {1..9}"
  unfolding lists_ok_def by blast

lemma values_okD:
  "values_ok s \<Longrightarrow> in_range p \<Longrightarrow>
   (case get_value_from_pos s p of Fixed v old \<Rightarrow> 1 \<le> v \<and> v \<le> 9 | Cands l \<Rightarrow> True)"
  unfolding values_ok_def by blast

lemma good_set_value:
  assumes "good s"
    and "in_range p \<Longrightarrow> sorted_wrt (<) (list_of c) \<and> set (list_of c) \<subseteq> {1..9}"
    and "in_range p \<Longrightarrow> (case c of Fixed v old \<Rightarrow> 1 \<le> v \<and> v \<le> 9 | Cands l \<Rightarrow> True)"
  shows "good (set_value s p c)"
proof (cases "in_range p")
  case True
  have wf: "wf_state s" using assms(1) by (simp add: good_def)
  have "lists_ok (set_value s p c)"
    unfolding lists_ok_def
  proof (intro allI impI)
    fix q assume "in_range q"
    then show "sorted_wrt (<) (list_of (get_value_from_pos (set_value s p c) q)) \<and>
               set (list_of (get_value_from_pos (set_value s p c) q)) \<subseteq> {1..9}"
      using assms(1,2) True lists_okD[of s q] by (simp add: get_set_value wf good_def)
  qed
  moreover have "values_ok (set_value s p c)"
    unfolding values_ok_def
  proof (intro allI impI)
    fix q assume "in_range q"
    then show "case get_value_from_pos (set_value s p c) q of
                 Fixed v old \<Rightarrow> 1 \<le> v \<and> v \<le> 9 | Cands l \<Rightarrow> True"
      using assms(3) True values_okD[of s q] assms(1)
      by (cases "q = p") (simp_all add: get_set_value wf good_def)
  qed
  ultimately show ?thesis
    using wf by (simp add: good_def wf_set_value)
next
  case False
  with assms show ?thesis by (simp add: set_value_out_of_range good_def)
qed

lemma good_fill_step:
  assumes "good s" "get_value_from_pos s p = Cands l" "1 \<le> v" "v \<le> 9"
  shows "good (set_value s p (Fixed v l))"
proof (rule good_set_value [OF assms(1)])
  assume "in_range p"
  then show "sorted_wrt (<) (list_of (Fixed v l)) \<and> set (list_of (Fixed v l)) \<subseteq> {1..9}"
    using lists_okD[of s p] assms by (simp add: good_def)
next
  show "case Fixed v l of Fixed v old \<Rightarrow> 1 \<le> v \<and> v \<le> 9 | Cands l \<Rightarrow> True"
    using assms by simp
qed

lemma sorted_wrt_remove1: "sorted_wrt (<) (l::int list) \<Longrightarrow> sorted_wrt (<) (remove1 v l)"
  by (induction l) (auto dest: notin_set_remove1)

lemma good_remove_step:
  assumes "good s" "get_value_from_pos s p = Cands l"
  shows "good (set_value s p (Cands (remove1 v l)))"
proof (rule good_set_value [OF assms(1)])
  assume "in_range p"
  then have "sorted_wrt (<) l" "set l \<subseteq> {1..9}"
    using lists_okD[of s p] assms by (simp_all add: good_def)
  then have "sorted_wrt (<) (remove1 v l)" "set (remove1 v l) \<subseteq> {1..9}"
    using sorted_wrt_remove1 set_remove1_subset by fastforce+
  then show "sorted_wrt (<) (list_of (Cands (remove1 v l))) \<and>
             set (list_of (Cands (remove1 v l))) \<subseteq> {1..9}"
    by simp
next
  show "case Cands (remove1 v l) of Fixed v old \<Rightarrow> 1 \<le> v \<and> v \<le> 9 | Cands l \<Rightarrow> True"
    by simp
qed

lemma evolves_step:
  assumes "wf_state s" "get_value_from_pos s p = Cands l" "set (list_of c) \<subseteq> set l"
  shows "evolves s (set_value s p c)"
proof (cases "in_range p")
  case True
  with assms show ?thesis
    by (auto simp: evolves_def get_set_value split: cell.splits)
next
  case False
  with assms show ?thesis by (simp add: set_value_out_of_range evolves_refl)
qed

lemma remove_value_good:
  assumes "good s" "remove_value s p v = Inr s'"
  shows "good s' \<and> evolves s s'"
proof (cases "get_value_from_pos s p")
  case (Fixed w old)
  with assms show ?thesis by (simp add: remove_value_def evolves_refl)
next
  case (Cands l)
  with assms have s': "s' = set_value s p (Cands (remove1 v l))"
    by (simp add: remove_value_def split: if_splits)
  have "set (list_of (Cands (remove1 v l))) \<subseteq> set l"
    using set_remove1_subset by fastforce
  then show ?thesis
    using good_remove_step [OF assms(1) Cands] evolves_step [OF _ Cands] assms(1)
    by (simp add: s' good_def)
qed

lemma remove_value_no_raise:
  "v \<in> set (list_of (get_value_from_pos s p)) \<Longrightarrow> remove_value s p v \<noteq> Inl e"
  by (auto simp: remove_value_def split: cell.splits)

lemma remove_from_neighbours_good:
  "good s \<Longrightarrow>
   (case remove_from_neighbours v nps reduced s of
      Inl e \<Rightarrow> False
    | Inr (r, reduced', s') \<Rightarrow>
        (r = 0 \<or> r = - 1) \<and> good s' \<and> evolves s s' \<and> set reduced' \<subseteq> set reduced \<union> set nps)"
proof (induction nps arbitrary: reduced s)
  case Nil
  then show ?case by (simp add: evolves_refl)
next
  case (Cons np nps)
  show ?case
  proof (cases "v \<in> set (list_of (get_value_from_pos s np))")
    case True
    then obtain s1 where s1: "remove_value s np v = Inr s1"
      using remove_value_no_raise [of v s np] by (cases "remove_value s np v") auto
    then have g: "good s1" "evolves s s1"
      using remove_value_good Cons.prems by blast+
    show ?thesis
      using Cons.IH [OF g(1), of "reduced @ [np]"] True s1 g(2)
      by (auto split: sum.splits intro: evolves_trans)
  next
    case False
    then show ?thesis
      using Cons.IH [OF Cons.prems, of reduced] Cons.prems
      by (auto split: sum.splits simp: evolves_refl)
  qed
qed

lemma post_None: "post codes s None"
  by (simp add: post_def)

lemma post_Return: "post codes s (Return (r, s')) = (r \<in> codes \<and> good s' \<and> evolves s s')"
  by (simp add: post_def)

lemma post_Raise: "\<not> post codes s (Raise e)"
  by (simp add: post_def)

lemma post_mono: "post C s res \<Longrightarrow> C \<subseteq> D \<Longrightarrow> post D s res"
  by (auto simp: post_def split: option.splits sum.splits)

lemma post_trans: "evolves s s1 \<Longrightarrow> post C s1 res \<Longrightarrow> post C s res"
  by (auto simp: post_def intro: evolves_trans split: option.splits sum.splits)

lemma post_bind:
  assumes "post C s res"
    and "\<And>r s1. res = Return (r, s1) \<Longrightarrow> r \<in> C \<Longrightarrow> good s1 \<Longrightarrow> evolves s s1
           \<Longrightarrow> post D s1 (k r s1)"
  shows "post D s (case res of None \<Rightarrow> None | Raise e \<Rightarrow> Raise e
                   | Return (r, s1) \<Rightarrow> k r s1)"
proof (cases res)
  case None
  then show ?thesis by (simp add: post_None)
next
  case (Some x)
  show ?thesis
  proof (cases x)
    case (Inl e)
    with Some assms(1) show ?thesis by (simp add: post_Raise)
  next
    case (Inr y)
    obtain r s1 where y: "y = (r, s1)" by (cases y)
    have "r \<in> C" "good s1" "evolves s s1"
      using assms(1) Some Inr y by (simp_all add: post_Return)
    then have "post D s1 (k r s1)"
      using assms(2) Some Inr y by simp
    then show ?thesis
      using Some Inr y \<open>evolves s s1\<close> by (simp add: post_trans)
  qed
qed

lemma fill_okD:
  "fill_ok fill \<Longrightarrow> good s \<Longrightarrow> in_range p \<Longrightarrow> 1 \<le> v \<Longrightarrow> v \<le> 9
   \<Longrightarrow> post {0, - 1, - 2} s (fill s p v)"
  unfolding fill_ok_def by blast

lemma counts_of_subset: "set (counts_of s position cur ns v) \<subseteq> set ns"
  by (auto simp: counts_of_def)

lemma analise_values_post:
  assumes "fill_ok fill" "\<forall>p \<in> set ns. in_range p"
  shows "good s \<Longrightarrow> set vs \<subseteq> {1..9}
         \<Longrightarrow> post {0, - 1} s (analise_values fill s position cur ns vs)"
proof (induction vs arbitrary: s)
  case Nil
  then show ?case by (simp add: post_Return evolves_refl)
next
  case (Cons v rest)
  have v: "1 \<le> v" "v \<le> 9" and rest: "set rest \<subseteq> {1..9}"
    using Cons.prems(2) by auto
  note IH = Cons.IH [OF _ rest]
  show ?case
  proof (cases "counts_of s position cur ns v")
    case Nil
    then show ?thesis using IH [OF Cons.prems(1)] by simp
  next
    case (Cons pos more)
    note c = this
    show ?thesis
    proof (cases more)
      case (Cons a b)
      then show ?thesis using c IH [OF Cons.prems(1)] by simp
    next
      case Nil
      have "pos \<in> set ns"
        using c counts_of_subset [of s position cur ns v] by auto
      then have r: "in_range pos" using assms(2) by blast
      show ?thesis
      proof (cases "is_list (get_value_from_pos s pos)")
        case False
        then show ?thesis using c Nil IH [OF Cons.prems(1)] by simp
      next
        case True
        have "post {0, - 1} s
               (case fill s pos v of None \<Rightarrow> None | Raise e \<Rightarrow> Raise e
                | Return (outcome, s1) \<Rightarrow>
                    if outcome = - 1 then Return (- 1, s1)
                    else analise_values fill s1 position cur ns rest)"
          by (rule post_bind [OF fill_okD [OF assms(1) Cons.prems(1) r v]])
             (auto simp: post_Return evolves_refl intro: IH)
        then show ?thesis using c Nil True by simp
      qed
    qed
  qed
qed

lemma analise_sets_post:
  assumes "fill_ok fill"
  shows "good s \<Longrightarrow> \<forall>ns \<in> set sets. \<forall>p \<in> set ns. in_range p
         \<Longrightarrow> post {0, - 1} s (analise_sets fill s position cur sets)"
proof (induction sets arbitrary: s)
  case Nil
  then show ?case by (simp add: post_Return evolves_refl)
next
  case (Cons ns rest)
  have ns: "\<forall>p \<in> set ns. in_range p" and rest: "\<forall>ns \<in> set rest. \<forall>p \<in> set ns. in_range p"
    using Cons.prems(2) by auto
  have "post {0, - 1} s
         (case analise_values fill s position cur ns [1..9] of None \<Rightarrow> None | Raise e \<Rightarrow> Raise e
          | Return (outcome, s1) \<Rightarrow>
              if outcome = - 1 then Return (- 1, s1)
              else analise_sets fill s1 position cur rest)"
    by (rule post_bind [OF analise_values_post [OF assms ns Cons.prems(1)]])
       (auto simp: post_Return evolves_refl intro: Cons.IH [OF _ rest])
  then show ?case by simp
qed

lemma in_range_get_neighbors:
  "in_range p \<Longrightarrow> q \<in> set (get_neighbors p (sec0, sec1, sec2)) \<Longrightarrow> in_range q"
  by (auto simp: set_get_neighbors row_cells_def col_cells_def box_cells_def split: if_splits)

lemma in_range_get_empty_neighbours:
  "in_range p \<Longrightarrow> q \<in> set (get_empty_neighbours s p (sec0, sec1, sec2)) \<Longrightarrow> in_range q"
  by (auto simp: get_empty_neighbours_def dest: in_range_get_neighbors)

lemma in_range_emtpy_neighbour_sets:
  "in_range p \<Longrightarrow> ns \<in> set (emtpy_neighbour_sets s p) \<Longrightarrow> q \<in> set ns \<Longrightarrow> in_range q"
  by (auto simp: emtpy_neighbour_sets_def dest: in_range_get_empty_neighbours)

lemma analise_post:
  assumes "fill_ok fill" "good s" "in_range position"
  shows "post {0, - 1} s (analise fill s position)"
proof (cases "get_value_from_pos s position")
  case (Fixed w old)
  then show ?thesis using assms(2) by (simp add: analise_def post_Return evolves_refl)
next
  case (Cands cur)
  show ?thesis
  proof (cases "cur = []")
    case True
    then show ?thesis using Cands assms(2) by (simp add: analise_def post_Return evolves_refl)
  next
    case False
    have "post {0, - 1} s (analise_sets fill s position cur (emtpy_neighbour_sets s position))"
      using in_range_emtpy_neighbour_sets [OF assms(3)]
      by (intro analise_sets_post [OF assms(1,2)]) blast
    then show ?thesis using Cands False by (simp add: analise_def)
  qed
qed

lemma hd_in_range_digits:
  assumes "good s" "in_range p" "get_value_from_pos s p = Cands l" "length l = 1"
  shows "1 \<le> hd l \<and> hd l \<le> 9"
proof -
  have "set l \<subseteq> {1..9}"
    using lists_okD [of s p] assms by (simp add: good_def)
  moreover have "hd l \<in> set l"
    using assms(4) by (cases l) auto
  ultimately show ?thesis by auto
qed

lemma check_reduced_post:
  assumes "fill_ok fill"
  shows "good s \<Longrightarrow> \<forall>rp \<in> set rps. in_range rp
         \<Longrightarrow> post {0, - 1} s (check_reduced fill s rps)"
proof (induction rps arbitrary: s)
  case Nil
  then show ?case by (simp add: post_Return evolves_refl)
next
  case (Cons rp rest)
  have rp: "in_range rp" and rest: "\<forall>rp \<in> set rest. in_range rp"
    using Cons.prems(2) by auto
  note IH = Cons.IH [OF _ rest]
  have inner: "post {0, - 1} s1
          (case get_value_from_pos s1 rp of
             Fixed w old \<Rightarrow> check_reduced fill s1 rest
           | Cands l \<Rightarrow>
               if length l = 0 then Return (- 1, s1)
               else if length l = 1
               then (case fill s1 rp (hd l) of
                       None \<Rightarrow> None
                     | Raise e \<Rightarrow> Raise e
                     | Return (recursive_result, s2) \<Rightarrow>
                         if recursive_result = - 1 then Return (- 1, s2)
                         else check_reduced fill s2 rest)
               else check_reduced fill s1 rest)" if g: "good s1" for s1
  proof (cases "get_value_from_pos s1 rp")
    case (Fixed w old)
    then show ?thesis using IH [OF g] by simp
  next
    case (Cands l)
    show ?thesis
    proof (cases "length l = 1")
      case False
      then show ?thesis using Cands IH [OF g] g by (simp add: post_Return evolves_refl)
    next
      case True
      have hd: "1 \<le> hd l" "hd l \<le> 9"
        using hd_in_range_digits [OF g rp Cands True] by simp_all
      have "post {0, - 1} s1
              (case fill s1 rp (hd l) of
                 None \<Rightarrow> None
               | Raise e \<Rightarrow> Raise e
               | Return (recursive_result, s2) \<Rightarrow>
                   if recursive_result = - 1 then Return (- 1, s2)
                   else check_reduced fill s2 rest)"
        by (rule post_bind [OF fill_okD [OF assms g rp hd]])
           (auto simp: post_Return evolves_refl intro: IH)
      then show ?thesis using Cands True by simp
    qed
  qed
  have "post {0, - 1} s
         (case analise fill s rp of None \<Rightarrow> None | Raise e \<Rightarrow> Raise e
          | Return (outcome, s1) \<Rightarrow>
              if outcome = - 1 then Return (- 1, s1)
              else (case get_value_from_pos s1 rp of
                      Fixed w old \<Rightarrow> check_reduced fill s1 rest
                    | Cands l \<Rightarrow>
                        if length l = 0 then Return (- 1, s1)
                        else if length l = 1
                        then (case fill s1 rp (hd l) of
                                None \<Rightarrow> None
                              | Raise e \<Rightarrow> Raise e
                              | Return (recursive_result, s2) \<Rightarrow>
                                  if recursive_result = - 1 then Return (- 1, s2)
                                  else check_reduced fill s2 rest)
                        else check_reduced fill s1 rest))"
    by (rule post_bind [OF analise_post [OF assms Cons.prems(1) rp]])
       (auto simp: post_Return evolves_refl intro: inner)
  then show ?case by simp
qed

lemma fill_body_post:
  assumes "fill_ok fill" "good s" "in_range p" "1 \<le> v" "v \<le> 9"
  shows "post {0, - 1, - 2} s (fill_body fill s p v)"
proof (cases "get_value_from_pos s p")
  case (Fixed w old)
  then show ?thesis using assms(2) by (simp add: fill_body_def post_Return evolves_refl)
next
  case (Cands l)
  let ?s0 = "set_value s p (Fixed v l)"
  let ?en = "get_empty_neighbours s p (True, True, True)"
  have g0: "good ?s0"
    by (rule good_fill_step [OF assms(2) Cands assms(4,5)])
  have e0: "evolves s ?s0"
    using evolves_step [OF _ Cands, of "Fixed v l"] assms(2) by (simp add: good_def)
  obtain r red s1 where rm: "remove_from_neighbours v ?en [] ?s0 = Inr (r, red, s1)"
    and r: "r = 0 \<or> r = - 1" and g1: "good s1" and e1: "evolves ?s0 s1"
    and red: "set red \<subseteq> set ?en"
    using remove_from_neighbours_good [OF g0, where v = v and nps = ?en and reduced = "[]"]
    by (auto split: sum.splits)
  have rng: "\<forall>rp \<in> set red. in_range rp"
    using red in_range_get_empty_neighbours [OF assms(3)] by blast
  have e: "evolves s s1" using e0 e1 by (rule evolves_trans)
  show ?thesis
  proof (cases "r = - 1")
    case True
    then show ?thesis using Cands rm g1 e by (simp add: fill_body_def post_Return)
  next
    case False
    have "post {0, - 1, - 2} s (check_reduced fill s1 red)"
      by (rule post_trans [OF e post_mono [OF check_reduced_post [OF assms(1) g1 rng]]]) simp
    then show ?thesis using Cands rm False by (simp add: fill_body_def)
  qed
qed

lemma fill_in_square_ok: "fill_ok (fill_in_square n)"
proof (induction n)
  case 0
  show ?case by (simp add: fill_ok_def post_None)
next
  case (Suc n)
  show ?case
    unfolding fill_ok_def using fill_body_post [OF Suc] by simp
qed

lemma fill_in_square_post:
  "good s \<Longrightarrow> in_range p \<Longrightarrow> 1 \<le> v \<Longrightarrow> v \<le> 9
   \<Longrightarrow> post {0, - 1, - 2} s (fill_in_square n s p v)"
  by (rule fill_okD [OF fill_in_square_ok])

lemma analise_empty_value_post:
  "good s \<Longrightarrow> in_range p \<Longrightarrow> post {0, - 1} s (analise_empty_value n s p)"
  unfolding analise_empty_value_def by (rule analise_post [OF fill_in_square_ok])

lemma narrow_squares_post:
  assumes "fill_ok fill"
  shows "good s \<Longrightarrow> \<forall>p \<in> set eps. in_range p
         \<Longrightarrow> post {0, - 1} s (narrow_squares fill s eps)"
proof (induction eps arbitrary: s)
  case Nil
  then show ?case by (simp add: post_Return evolves_refl)
next
  case (Cons ep rest)
  have ep: "in_range ep" and rest: "\<forall>p \<in> set rest. in_range p"
    using Cons.prems(2) by auto
  note IH = Cons.IH [OF _ rest]
  show ?case
  proof (cases "get_value_from_pos s ep")
    case (Fixed w old)
    then show ?thesis using IH [OF Cons.prems(1)] by simp
  next
    case (Cands l)
    show ?thesis
    proof (cases "length l = 1")
      case False
      then show ?thesis
        using Cands IH [OF Cons.prems(1)] Cons.prems(1) by (simp add: post_Return evolves_refl)
    next
      case True
      have hd: "1 \<le> hd l" "hd l \<le> 9"
        using hd_in_range_digits [OF Cons.prems(1) ep Cands True] by simp_all
      have "post {0, - 1} s
              (case fill s ep (hd l) of
                 None \<Rightarrow> None
               | Raise e \<Rightarrow> Raise e
               | Return (outcome, s1) \<Rightarrow>
                   if outcome = - 1 then Return (- 1, s1)
                   else narrow_squares fill s1 rest)"
        by (rule post_bind [OF fill_okD [OF assms Cons.prems(1) ep hd]])
           (auto simp: post_Return evolves_refl intro: IH)
      then show ?thesis using Cands True by simp
    qed
  qed
qed

lemma set_get_empty_states:
  "set (get_empty_states s) = {p. in_range p \<and> is_list (get_value_from_pos s p)}"
  by (auto simp: get_empty_states_def set_all_positions)

lemma is_solved_iff: "is_solved s = 1 \<longleftrightarrow> get_empty_states s = []"
  by (auto simp: is_solved_def get_empty_states_def filter_empty_conv)

lemma narrow_post: "good s \<Longrightarrow> post {0, 1, - 1} s (narrow n s)"
  using narrow_squares_post [OF fill_in_square_ok, of s "get_empty_states s" n]
  by (auto simp: narrow_def post_Return evolves_refl Let_def set_get_empty_states
        intro: post_mono)

lemma narrow_solved: "narrow n s = Return (1, s') \<Longrightarrow> good s \<Longrightarrow> is_solved s' = 1"
proof -
  assume a: "narrow n s = Return (1, s')" and g: "good s"
  have "post {0, - 1} s (narrow_squares (fill_in_square n) s (get_empty_states s))"
    by (rule narrow_squares_post [OF fill_in_square_ok g]) (simp add: set_get_empty_states)
  then show ?thesis
    using a by (auto simp: narrow_def Let_def is_solved_iff post_Return split: if_splits)
qed

lemma set_foldl_dict_add: "set (foldl (\<lambda>ks k. dict_add k ks) acc vs) = set acc \<union> set vs"
  by (induction vs arbitrary: acc) (auto simp: set_dict_add)

lemma map_fst_increment: "map fst (increment v cs) = map fst cs"
  by (induction cs) (auto simp: increment_def)

lemma map_fst_count_neighbour: "map fst (count_neighbour vs cs pev) = map fst cs"
  unfolding count_neighbour_def
  by (induction vs arbitrary: cs) (auto simp: map_fst_increment)

lemma map_fst_foldl_count_neighbour:
  "map fst (foldl (count_neighbour vs) cs pevs) = map fst cs"
  by (induction pevs arbitrary: cs) (auto simp: map_fst_count_neighbour)

lemma sort_key_Nil_iff: "sort_key f xs = [] \<longleftrightarrow> xs = []"
  using length_sort [of f xs] by (simp only: length_0_conv [symmetric])

lemma hd_sort_key_in: "sort_key f xs = c # cs \<Longrightarrow> c \<in> set xs"
  using set_sort [of f xs] by auto

lemma least_constraining_value_in:
  assumes "get_value_from_pos s p = Cands vs" "vs \<noteq> []"
  shows "\<exists>g. least_constraining_value s p = Inr g \<and> g \<in> set vs"
proof -
  define keys where "keys = foldl (\<lambda>ks k. dict_add k ks) [] vs"
  define cs where "cs = foldl (count_neighbour vs) (map (\<lambda>v. (v, 0)) keys)
               (map (\<lambda>p. list_of (get_value_from_pos s p))
                  (get_empty_neighbours s p (True, True, True)))"
  have fst: "map fst cs = keys"
    by (simp add: cs_def map_fst_foldl_count_neighbour comp_def)
  have keys: "set keys = set vs"
    by (simp add: keys_def set_foldl_dict_add)
  have "keys \<noteq> []"
    using keys assms(2) by auto
  then have "cs \<noteq> []"
    using fst by auto
  then obtain c cs' where c: "sort_key snd cs = c # cs'"
    using sort_key_Nil_iff [of snd cs] by (cases "sort_key snd cs") auto
  then have "c \<in> set cs"
    by (rule hd_sort_key_in)
  then have "fst c \<in> set (map fst cs)"
    by simp
  then have "fst c \<in> set vs"
    by (simp only: fst keys)
  moreover have "least_constraining_value s p = Inr (fst c)"
    using assms(1) c by (simp add: least_constraining_value_def Let_def cs_def keys_def)
  ultimately show ?thesis by blast
qed

lemma square_to_edit_in:
  assumes "get_empty_states s \<noteq> []"
  shows "\<exists>sq. square_to_edit s = Inr sq \<and> sq \<in> set (get_empty_states s)"
proof -
  define l where
    "l = sort_key (\<lambda>p. length (list_of (get_value_from_pos s p))) (get_empty_states s)"
  have "l \<noteq> []"
    using assms by (simp add: l_def sort_key_Nil_iff)
  then obtain sq rest where l: "l = sq # rest"
    by (cases l) auto
  then have "sq \<in> set (get_empty_states s)"
    unfolding l_def by (rule hd_sort_key_in)
  then show ?thesis
    using l by (simp add: square_to_edit_def l_def)
qed

text \<open>a list-valued square is never answered with -2\<close>

lemma check_reduced_codes:
  "fill_ok fill \<Longrightarrow> good s \<Longrightarrow> \<forall>rp \<in> set rps. in_range rp
   \<Longrightarrow> check_reduced fill s rps = Return (r, s') \<Longrightarrow> r = 0 \<or> r = - 1"
  using check_reduced_post [of fill s rps] by (auto simp: post_Return)

lemma fill_in_square_list_codes:
  assumes "good s" "in_range p" "1 \<le> v" "v \<le> 9" "get_value_from_pos s p = Cands l"
    and "fill_in_square n s p v = Return (r, s')"
  shows "r = 0 \<or> r = - 1"
proof (cases n)
  case 0
  with assms(6) show ?thesis by simp
next
  case (Suc m)
  let ?s0 = "set_value s p (Fixed v l)"
  let ?en = "get_empty_neighbours s p (True, True, True)"
  have g0: "good ?s0"
    by (rule good_fill_step [OF assms(1,5,3,4)])
  obtain r1 red s1 where rm: "remove_from_neighbours v ?en [] ?s0 = Inr (r1, red, s1)"
    and r1: "r1 = 0 \<or> r1 = - 1" and g1: "good s1"
    and red: "set red \<subseteq> set ?en"
    using remove_from_neighbours_good [OF g0, where v = v and nps = ?en and reduced = "[]"]
    by (auto split: sum.splits)
  have rng: "\<forall>rp \<in> set red. in_range rp"
    using red in_range_get_empty_neighbours [OF assms(2)] by blast
  show ?thesis
  proof (cases "r1 = - 1")
    case True
    then show ?thesis using assms(5,6) rm Suc by (simp add: fill_body_def)
  next
    case False
    then have "check_reduced (fill_in_square m) s1 red = Return (r, s')"
      using assms(5,6) rm Suc by (simp add: fill_body_def)
    then show ?thesis
      using check_reduced_codes [OF fill_in_square_ok g1 rng] by blast
  qed
qed

lemma spost_None: "spost s None"
  by (simp add: spost_def post_None)

lemma spost_Return:
  "spost s (Return (r, s')) =
     ((r = 1 \<or> r = - 1) \<and> good s' \<and> evolves s s' \<and> (r = 1 \<longrightarrow> is_solved s' = 1))"
  by (auto simp: spost_def post_Return)

lemma spost_Raise: "\<not> spost s (Raise e)"
  by (simp add: spost_def post_Raise)

lemma spost_trans: "evolves s s1 \<Longrightarrow> spost s1 res \<Longrightarrow> spost s res"
  by (auto simp: spost_def intro: post_trans)

lemma remove_value_present:
  "get_value_from_pos s p = Cands l \<Longrightarrow> g \<in> set l \<Longrightarrow>
   remove_value s p g = Inr (set_value s p (Cands (remove1 g l)))"
  by (simp add: remove_value_def)

lemma solve_while_post:
  assumes S: "\<And>t. good t \<Longrightarrow> spost t (solve_rec t)"
    and W: "\<And>t. good t \<Longrightarrow> evolves s0 t \<Longrightarrow> spost s0 (while_rec t t)"
    and g: "good s" and e: "evolves s0 s" and sq: "in_range sq"
  shows "spost s0 (solve_while n solve_rec while_rec sq s s)"
proof (cases "get_value_from_pos s sq")
  case (Fixed w old)
  then show ?thesis
    using spost_trans [OF e S [OF g]] by (simp add: solve_while_def)
next
  case (Cands l)
  show ?thesis
  proof (cases "l = []")
    case True
    then show ?thesis using Cands g e by (simp add: solve_while_def spost_Return)
  next
    case False
    obtain gv where lcv: "least_constraining_value s sq = Inr gv" and gv: "gv \<in> set l"
      using least_constraining_value_in [OF Cands False] by blast
    have "set l \<subseteq> {1..9}"
      using lists_okD [of s sq] g sq Cands by (simp add: good_def)
    then have d: "1 \<le> gv" "gv \<le> 9" using gv by auto
    note fp = fill_in_square_post [OF g sq d, of n]
    show ?thesis
    proof (cases "fill_in_square n s sq gv")
      case None
      then show ?thesis using Cands False lcv by (simp add: solve_while_def spost_None)
    next
      case (Some x)
      show ?thesis
      proof (cases x)
        case (Inl err)
        then show ?thesis using fp Some by (simp add: post_Raise)
      next
        case (Inr y)
        obtain r1 s1 where y: "y = (r1, s1)" by (cases y)
        have fill: "fill_in_square n s sq gv = Return (r1, s1)"
          using Some Inr y by simp
        have g1: "good s1" and e1: "evolves s s1"
          using fp fill by (simp_all add: post_Return)
        have r1: "r1 = 0 \<or> r1 = - 1"
          by (rule fill_in_square_list_codes [OF g sq d Cands fill])
        define X where "X = (if r1 = 0 then solve_rec s1 else Return (r1, s1))"
        have X: "spost s0 X \<or> (\<exists>s2. X = Return (- 1, s2))"
        proof (cases "r1 = 0")
          case True
          then show ?thesis
            using spost_trans [OF evolves_trans [OF e e1] S [OF g1]] by (simp add: X_def)
        next
          case False
          then show ?thesis using r1 by (simp add: X_def)
        qed
        have rm: "remove_value s sq gv = Inr (set_value s sq (Cands (remove1 gv l)))"
          by (rule remove_value_present [OF Cands gv])
        define s3 where "s3 = set_value s sq (Cands (remove1 gv l))"
        have g3: "good s3" and e3: "evolves s s3"
          using remove_value_good [OF g rm] by (simp_all add: s3_def)
        have again: "spost s0
              (case analise_empty_value n s3 sq of
                 None \<Rightarrow> None
               | Raise e \<Rightarrow> Raise e
               | Return (outcome_of_analysis, s4) \<Rightarrow>
                   if outcome_of_analysis = - 1 then Return (- 1, s4)
                   else while_rec s4 s4)"
        proof (cases "analise_empty_value n s3 sq")
          case None
          then show ?thesis by (simp add: spost_None)
        next
          case (Some a)
          note ap = analise_empty_value_post [OF g3 sq, of n]
          show ?thesis
          proof (cases a)
            case (Inl err)
            then show ?thesis using ap Some by (simp add: post_Raise)
          next
            case (Inr b)
            obtain r4 s4 where b: "b = (r4, s4)" by (cases b)
            have g4: "good s4" and e4: "evolves s3 s4"
              using ap Some Inr b by (simp_all add: post_Return)
            have e04: "evolves s0 s4"
              using e e3 e4 by (blast intro: evolves_trans)
            show ?thesis
              using Some Inr b g4 e04 W [OF g4 e04] by (simp add: spost_Return)
          qed
        qed
        have eq: "solve_while n solve_rec while_rec sq s s =
              (case X of
                 None \<Rightarrow> None
               | Raise e \<Rightarrow> Raise e
               | Return (outcome_of_guess, s2) \<Rightarrow>
                   if outcome_of_guess = 1 then Return (1, s2)
                   else if outcome_of_guess = - 1
                   then (case analise_empty_value n s3 sq of
                           None \<Rightarrow> None
                         | Raise e \<Rightarrow> Raise e
                         | Return (outcome_of_analysis, s4) \<Rightarrow>
                             if outcome_of_analysis = - 1 then Return (- 1, s4)
                             else while_rec s4 s4)
                   else while_rec s2 s)"
          using Cands False lcv fill rm
          by (simp add: solve_while_def X_def s3_def
                cong del: option.case_cong_weak sum.case_cong_weak if_weak_cong)
        show ?thesis
        proof (cases X)
          case None
          then show ?thesis by (simp add: eq spost_None)
        next
          case (Some c)
          show ?thesis
          proof (cases c)
            case (Inl err)
            then show ?thesis using X Some by (auto simp: spost_Raise)
          next
            case (Inr d)
            obtain r2 s2 where d: "d = (r2, s2)" by (cases d)
            have XR: "X = Return (r2, s2)" using Some Inr d by simp
            show ?thesis
            proof (cases "r2 = 1")
              case True
              then show ?thesis using X XR by (auto simp: eq spost_Return)
            next
              case False
              then have "r2 = - 1" using X XR by (auto simp: spost_Return)
              then show ?thesis using again XR by (simp add: eq)
            qed
          qed
        qed
      qed
    qed
  qed
qed

lemma solve_body_post:
  assumes W: "\<And>sq t. in_range sq \<Longrightarrow> good t \<Longrightarrow> spost t (while_loop sq t t)"
    and g: "good s"
  shows "spost s (solve_body n while_loop s)"
proof (cases "narrow n s")
  case None
  then show ?thesis by (simp add: solve_body_def spost_None)
next
  case (Some x)
  note np = narrow_post [OF g, of n]
  show ?thesis
  proof (cases x)
    case (Inl err)
    then show ?thesis using np Some by (simp add: post_Raise)
  next
    case (Inr y)
    obtain r s1 where y: "y = (r, s1)" by (cases y)
    have nr: "narrow n s = Return (r, s1)" using Some Inr y by simp
    have g1: "good s1" and e1: "evolves s s1" and r: "r = 0 \<or> r = 1 \<or> r = - 1"
      using np nr by (auto simp: post_Return)
    show ?thesis
    proof (cases "r = 0")
      case False
      then show ?thesis
        using nr r g1 e1 narrow_solved [OF _ g, of n s1]
        by (auto simp: solve_body_def spost_Return)
    next
      case True
      show ?thesis
      proof (cases "is_solved s1 = 1")
        case True
        then show ?thesis
          using nr \<open>r = 0\<close> g1 e1 by (simp add: solve_body_def spost_Return)
      next
        case False
        then have "get_empty_states s1 \<noteq> []" by (simp add: is_solved_iff)
        then obtain sq where sq: "square_to_edit s1 = Inr sq" "sq \<in> set (get_empty_states s1)"
          using square_to_edit_in by blast
        then have "in_range sq" by (simp add: set_get_empty_states)
        then have "spost s (while_loop sq s1 s1)"
          using spost_trans [OF e1 W [OF _ g1]] by blast
        then show ?thesis
          using nr \<open>r = 0\<close> False sq by (simp add: solve_body_def)
      qed
    qed
  qed
qed

lemma solve_post_both:
  "(\<forall>s. good s \<longrightarrow> spost s (solve n s)) \<and>
   (\<forall>sq s s0. in_range sq \<longrightarrow> good s \<longrightarrow> evolves s0 s \<longrightarrow> spost s0 (solve_loop n sq s s))"
proof (induction n)
  case 0
  show ?case by (simp add: spost_None)
next
  case (Suc n)
  have S: "\<And>t. good t \<Longrightarrow> spost t (solve n t)"
    and W: "\<And>sq t s0. in_range sq \<Longrightarrow> good t \<Longrightarrow> evolves s0 t \<Longrightarrow> spost s0 (solve_loop n sq t t)"
    using Suc by blast+
  have "spost s (solve (Suc n) s)" if "good s" for s
    using solve_body_post [of "solve_loop n" s n] W evolves_refl that by simp
  moreover have "spost s0 (solve_loop (Suc n) sq s s)"
    if "in_range sq" "good s" "evolves s0 s" for sq s s0
    using solve_while_post [of "solve n" s0 "solve_loop n sq" s sq n] S W that by simp
  ultimately show ?case by blast
qed

lemma solve_post: "good s \<Longrightarrow> spost s (solve n s)"
  using solve_post_both by blast

lemma setup_inv_init:
  assumes "proper_grid g"
  shows "setup_inv g {} (init_state g)"
proof -
  have wf: "wf_state (init_state g)"
    using assms by (auto simp: proper_grid_def wf_state_def init_state_def)
  have "get_value_from_pos (init_state g) p = Fixed (grid_at g p) []" if "in_range p" for p
    using assms that
    by (simp add: proper_grid_def in_range_def init_state_def get_value_from_pos_def grid_at_def)
  then show ?thesis
    using wf by (simp add: setup_inv_def)
qed

lemma upto_1_9: "[1..9] = [1, 2, 3, 4, 5, 6, 7, 8, 9 :: int]"
  by code_simp

lemma initial_candidates_sorted:
  "sorted_wrt (<) (initial_candidates g p) \<and> set (initial_candidates g p) \<subseteq> {1..9}"
  unfolding initial_candidates_def
  by (rule conjI [OF sorted_wrt_filter]) auto

lemma remove_neighbour_value_filter:
  assumes "distinct l" "\<forall>d \<in> set l. 0 < d"
  shows "remove_neighbour_value s l q =
     filter (\<lambda>d. \<forall>old. get_value_from_pos s q \<noteq> Fixed d old) l"
proof (cases "get_value_from_pos s q")
  case (Cands c)
  then show ?thesis by (simp add: remove_neighbour_value_def)
next
  case (Fixed nv old)
  have "remove1 nv l = filter ((\<noteq>) nv) l"
    using assms(1) by (simp add: distinct_remove1_removeAll removeAll_filter_not_eq)
  moreover have "filter ((\<noteq>) nv) l = l" if "nv \<notin> set l"
    using that by (auto simp: filter_id_conv)
  moreover have "nv \<notin> set l" if "\<not> 0 < nv"
    using that assms(2) by auto
  ultimately show ?thesis
    using Fixed by (auto simp: remove_neighbour_value_def)
qed

lemma foldl_remove_neighbour_value:
  "distinct l \<Longrightarrow> \<forall>d \<in> set l. 0 < d \<Longrightarrow>
   foldl (remove_neighbour_value s) l ns =
     filter (\<lambda>d. \<forall>q \<in> set ns. \<forall>old. get_value_from_pos s q \<noteq> Fixed d old) l"
proof (induction ns arbitrary: l)
  case Nil
  then show ?case by simp
next
  case (Cons q ns)
  let ?l = "filter (\<lambda>d. \<forall>old. get_value_from_pos s q \<noteq> Fixed d old) l"
  have "foldl (remove_neighbour_value s) ?l ns =
        filter (\<lambda>d. \<forall>q \<in> set ns. \<forall>old. get_value_from_pos s q \<noteq> Fixed d old) ?l"
    using Cons.prems by (intro Cons.IH) auto
  then show ?case
    using Cons.prems by (simp add: remove_neighbour_value_filter)
qed

lemma setup_inv_step:
  assumes "setup_inv g D s" "in_range p"
  shows "setup_inv g (insert p D) (setup_position s p)"
proof -
  have wf: "wf_state s" using assms(1) by (simp add: setup_inv_def)
  note inv = assms(1) [unfolded setup_inv_def, THEN conjunct2, rule_format]
  show ?thesis
  proof (cases "get_value_from_pos s p = Fixed 0 []")
    case False
    then have same: "setup_position s p = s"
      using inv [OF assms(2)] by (auto simp: setup_position_def split: if_splits cell.splits)
    have "grid_at g p \<noteq> 0 \<or> p \<in> D"
      using inv [OF assms(2)] False by (auto split: if_splits)
    then show ?thesis
      using assms(1) unfolding same setup_inv_def by auto
  next
    case True
    define l where "l = foldl (remove_neighbour_value s) [1..9] (get_neighbors p (True, True, True))"
    have given: "(\<exists>old. get_value_from_pos s q = Fixed d old) \<longleftrightarrow> grid_at g q = d"
      if "q \<in> set (get_neighbors p (True, True, True))" "0 < d" for q d
    proof -
      have "in_range q" using that(1) assms(2) by (rule in_range_get_neighbors [rotated])
      then show ?thesis using inv [of q] that(2) by (auto split: if_splits)
    qed
    have "l = filter (\<lambda>d. \<forall>q \<in> set (get_neighbors p (True, True, True)).
                 \<forall>old. get_value_from_pos s q \<noteq> Fixed d old) [1, 2, 3, 4, 5, 6, 7, 8, 9]"
      unfolding l_def upto_1_9 by (rule foldl_remove_neighbour_value) simp_all
    also have "\<dots> = initial_candidates g p"
      unfolding initial_candidates_def
    proof (rule filter_cong [OF refl])
      fix d :: int assume "d \<in> set [1, 2, 3, 4, 5, 6, 7, 8, 9]"
      then have d: "0 < d" by auto
      have "(\<forall>old. get_value_from_pos s q \<noteq> Fixed d old) \<longleftrightarrow> grid_at g q \<noteq> d"
        if "q \<in> set (get_neighbors p (True, True, True))" for q
        using given [OF that d] by blast
      then show "(\<forall>q \<in> set (get_neighbors p (True, True, True)).
                   \<forall>old. get_value_from_pos s q \<noteq> Fixed d old) =
                 (\<forall>q \<in> set (get_neighbors p (True, True, True)). grid_at g q \<noteq> d)"
        by simp
    qed
    finally have l: "l = initial_candidates g p" .
    have eq: "setup_position s p = set_value s p (Cands l)"
      using True by (simp add: setup_position_def l_def)
    have zero: "grid_at g p = 0"
      using inv [OF assms(2)] True by (auto split: if_splits)
    show ?thesis
      unfolding eq setup_inv_def
    proof (intro conjI allI impI)
      show "wf_state (set_value s p (Cands l))" by (rule wf_set_value [OF wf])
    next
      fix q assume q: "in_range q"
      show "if grid_at g q \<noteq> 0 then get_value_from_pos (set_value s p (Cands l)) q = Fixed (grid_at g q) []
            else if q \<in> insert p D
                 then get_value_from_pos (set_value s p (Cands l)) q = Cands (initial_candidates g q)
                 else get_value_from_pos (set_value s p (Cands l)) q = Fixed 0 []"
        using inv [OF q] l zero by (cases "q = p") (simp_all add: get_set_value [OF wf assms(2)])
    qed
  qed
qed

lemma setup_inv_foldl:
  "setup_inv g D s \<Longrightarrow> \<forall>p \<in> set ps. in_range p
   \<Longrightarrow> setup_inv g (D \<union> set ps) (foldl setup_position s ps)"
proof (induction ps arbitrary: D s)
  case Nil
  then show ?case by simp
next
  case (Cons p ps)
  have "setup_inv g (insert p D \<union> set ps) (foldl setup_position (setup_position s p) ps)"
    using Cons.prems by (intro Cons.IH setup_inv_step) auto
  then show ?case by simp
qed

lemma setup_inv_SudokuState:
  "proper_grid g \<Longrightarrow> setup_inv g {p. in_range p} (SudokuState g)"
  using setup_inv_foldl [OF setup_inv_init, of g all_positions]
  by (simp add: SudokuState_def setup_state_def set_all_positions)

lemma setup_invD:
  "setup_inv g D s \<Longrightarrow> in_range p \<Longrightarrow>
     (if grid_at g p \<noteq> 0 then get_value_from_pos s p = Fixed (grid_at g p) []
      else if p \<in> D then get_value_from_pos s p = Cands (initial_candidates g p)
      else get_value_from_pos s p = Fixed 0 [])"
  unfolding setup_inv_def by blast

lemma SudokuState_given:
  "proper_grid g \<Longrightarrow> in_range p \<Longrightarrow> grid_at g p \<noteq> 0
   \<Longrightarrow> get_value_from_pos (SudokuState g) p = Fixed (grid_at g p) []"
  using setup_invD [OF setup_inv_SudokuState, of g p] by simp

lemma SudokuState_empty:
  "proper_grid g \<Longrightarrow> in_range p \<Longrightarrow> grid_at g p = 0
   \<Longrightarrow> get_value_from_pos (SudokuState g) p = Cands (initial_candidates g p)"
  using setup_invD [OF setup_inv_SudokuState, of g p] by simp

lemma wf_SudokuState: "proper_grid g \<Longrightarrow> wf_state (SudokuState g)"
  using setup_inv_SudokuState [of g] unfolding setup_inv_def by blast

lemma proper_grid_at:
  assumes "proper_grid g" "in_range p"
  shows "0 \<le> grid_at g p \<and> grid_at g p \<le> 9"
proof -
  have "g ! fst p \<in> set g"
    using assms by (simp add: proper_grid_def in_range_def)
  then have "length (g ! fst p) = 9" "\<forall>n \<in> set (g ! fst p). 0 \<le> n \<and> n \<le> 9"
    using assms(1) by (simp_all add: proper_grid_def)
  then show ?thesis
    using assms(2) by (simp add: grid_at_def in_range_def)
qed

lemma good_SudokuState:
  assumes "proper_grid g"
  shows "good (SudokuState g)"
proof -
  have "lists_ok (SudokuState g)"
    unfolding lists_ok_def
  proof (intro allI impI)
    fix p assume p: "in_range p"
    show "sorted_wrt (<) (list_of (get_value_from_pos (SudokuState g) p)) \<and>
          set (list_of (get_value_from_pos (SudokuState g) p)) \<subseteq> {1..9}"
      using SudokuState_given [OF assms p] SudokuState_empty [OF assms p]
        initial_candidates_sorted [of g p]
      by (cases "grid_at g p = 0") auto
  qed
  moreover have "values_ok (SudokuState g)"
    unfolding values_ok_def
  proof (intro allI impI)
    fix p assume p: "in_range p"
    show "case get_value_from_pos (SudokuState g) p of
            Fixed v old \<Rightarrow> 1 \<le> v \<and> v \<le> 9 | Cands l \<Rightarrow> True"
      using SudokuState_given [OF assms p] SudokuState_empty [OF assms p]
        proper_grid_at [OF assms p]
      by (cases "grid_at g p = 0") auto
  qed
  ultimately show ?thesis
    using wf_SudokuState [OF assms] by (simp add: good_def)
qed

lemma shape_AxisD:
  assumes "shape (Axis xs) = Some sh" "x \<in> set xs"
  shows "\<exists>sh'. sh = length xs # sh' \<and> shape x = Some sh'"
proof (cases xs)
  case Nil
  then show ?thesis using assms(2) by simp
next
  case (Cons y ys)
  then obtain sh' where y: "shape y = Some sh'"
    using assms(1) by (cases "shape y") simp_all
  have a: "(\<forall>z \<in> set ys. shape z = Some sh') \<and> sh = Suc (length ys) # sh'"
    using assms(1) Cons y by (simp split: if_splits)
  then have "shape x = Some sh'"
    using assms(2) Cons y by auto
  then show ?thesis using a Cons by simp
qed


lemma state_row_slot:
  assumes "wf_state s" "in_range p"
  shows "s ! fst p \<in> set s \<and> get_value_from_pos s p \<in> set (s ! fst p)"
  using assms by (simp add: wf_state_def in_range_def get_value_from_pos_def)

lemma get_numpy_state_ragged:
  assumes "wf_state s" "in_range p" "in_range q"
    and "is_int (get_value_from_pos s p)" "is_list (get_value_from_pos s q)"
  shows "get_numpy_state s = Inl ValueError"
proof (cases "shape (state_array s)")
  case None
  then show ?thesis by (simp add: get_numpy_state_def np_array_def state_array_def)
next
  case (Some sh)
  have row: "\<exists>sh'. sh = 9 # sh' \<and> shape (Axis (map slot_value (s ! fst r))) = Some sh'"
    if "in_range r" for r
  proof -
    have "Axis (map slot_value (s ! fst r)) \<in> set (map (\<lambda>row. Axis (map slot_value row)) s)"
      using state_row_slot [OF assms(1) that] by simp
    then show ?thesis
      using shape_AxisD [OF Some [unfolded state_array_def]] assms(1)
      by (simp add: wf_state_def)
  qed
  have slot: "\<exists>sh''. sh = [9, 9] @ sh'' \<and> shape (slot_value (get_value_from_pos s r)) = Some sh''"
    if r: "in_range r" for r
  proof -
    obtain sh' where a: "sh = 9 # sh'" "shape (Axis (map slot_value (s ! fst r))) = Some sh'"
      using row [OF r] by blast
    have "slot_value (get_value_from_pos s r) \<in> set (map slot_value (s ! fst r))"
      using state_row_slot [OF assms(1) r] by simp
    moreover have "length (s ! fst r) = 9"
      using state_row_slot [OF assms(1) r] assms(1) by (simp add: wf_state_def)
    ultimately show ?thesis
      using shape_AxisD [OF a(2)] a(1) by simp
  qed
  obtain v old where p: "get_value_from_pos s p = Fixed v old"
    using assms(4) by (cases "get_value_from_pos s p") simp_all
  obtain l where q: "get_value_from_pos s q = Cands l"
    using assms(5) by (cases "get_value_from_pos s q") simp_all
  have "sh = [9, 9]"
    using slot [OF assms(2)] p by simp
  moreover have "\<exists>sh''. sh = [9, 9] @ sh'' \<and> shape (Axis (map Elem l)) = Some sh''"
    using slot [OF assms(3)] q by simp
  ultimately have "shape (Axis (map Elem l)) = Some []" by simp
  then show ?thesis by (cases l) (simp_all split: option.splits if_splits)
qed





lemma is_solved_fixed:
  assumes "is_solved s = 1" "in_range p"
  shows "is_int (get_value_from_pos s p)"
proof -
  have "p \<notin> set (get_empty_states s)"
    using assms(1) by (simp add: is_solved_iff)
  then have "\<not> is_list (get_value_from_pos s p)"
    using assms(2) by (simp add: set_get_empty_states)
  then show ?thesis
    by (cases "get_value_from_pos s p") simp_all
qed

lemma good_ascending: "good s \<Longrightarrow> ascending s"
  unfolding ascending_def
proof (intro allI impI)
  fix p l assume g: "good s" and "in_range p \<and> get_value_from_pos s p = Cands l"
  then show "sorted_wrt (<) l \<and> set l \<subseteq> {1..9}"
    using lists_okD [of s p] by (simp add: good_def)
qed

lemma reachable_good: "reachable s \<Longrightarrow> good s"
proof (induction rule: reachable.induct)
  case (construct g)
  then show ?case by (rule good_SudokuState)
next
  case (assign s p l v)
  then show ?case by (simp add: good_fill_step)
next
  case (remove s p v s')
  then show ?case using remove_value_good by blast
next
  case (fill_in s p v n r s')
  then show ?case
    using fill_in_square_post [of s p v n] by (simp add: post_Return)
next
  case (analise s p n r s')
  then show ?case
    using analise_empty_value_post [of s p n] by (simp add: post_Return)
next
  case (narrowed s n r s')
  then show ?case
    using narrow_post [of s n] by (simp add: post_Return)
next
  case (solved s n r s')
  then show ?case
    using solve_post [of s n] by (simp add: spost_Return)
qed

lemma proper_zero_grid: "proper_grid zero_grid"
  by (simp add: proper_grid_def zero_grid_def)

lemma proper_five_row: "proper_grid five_row"
  by (auto simp: proper_grid_def five_row_def)

text \<open>
  Claim C9: in every reachable state every candidate list is strictly increasing, with
  its digits among 1..9. The reachable states are those built by the constructor from a
  9x9 grid of numbers 0..9 and those obtained from a reachable state by filling in a
  list-valued square with a digit, by \<open>remove_value\<close>, \<open>fill_in_square\<close>,
  \<open>analise_empty_value\<close>, \<open>narrow\<close> or \<open>solve\<close>; a snapshot is a reachable state, so
  restoring one yields a reachable state.
\<close>

theorem candidate_lists_ascending: "reachable s \<Longrightarrow> ascending s"
  by (rule good_ascending [OF reachable_good])

theorem candidate_lists_ascending_witness:
  "reachable (SudokuState zero_grid) \<and> ascending (SudokuState zero_grid)"
  using candidate_lists_ascending [of "SudokuState zero_grid"]
    reachable.construct [OF proper_zero_grid]
  by simp

lemma check_conflict:
  assumes "in_range p" "get_value_from_pos s p = Fixed v old"
    and "q \<in> set (get_neighbors p (True, True, True))" "get_value_from_pos s q = Fixed v old'"
  shows "check s = - 1"
proof -
  have "filled_in s (get_neighbors p (True, True, True)) v"
    unfolding filled_in_def using assms(3,4) by (intro bexI [of _ q]) simp_all
  then have "\<exists>position \<in> set all_positions.
           case get_value_from_pos s position of
             Fixed v old \<Rightarrow> filled_in s (get_neighbors position (True, True, True)) v
           | Cands l \<Rightarrow> False"
    using assms(1,2) by (intro bexI [of _ p]) (simp_all add: set_all_positions)
  then show ?thesis by (simp add: check_def)
qed

lemma five_row_given:
  "j < 9 \<Longrightarrow> get_value_from_pos (SudokuState five_row) (0, j) = Fixed 5 []"
  using SudokuState_given [OF proper_five_row, of "(0, j)"]
  by (simp add: in_range_def grid_at_def five_row_def)

lemma five_row_empty: "is_list (get_value_from_pos (SudokuState five_row) (8, 0))"
  using SudokuState_empty [OF proper_five_row, of "(8, 0)"]
  by (simp add: in_range_def grid_at_def five_row_def)

lemma check_five_row: "check (SudokuState five_row) = - 1"
proof (rule check_conflict [of "(0, 0)" _ 5 "[]" "(0, 2 - 1)" "[]"])
  show "in_range (0, 0)" by (simp add: in_range_def)
  show "get_value_from_pos (SudokuState five_row) (0, 0) = Fixed 5 []"
    by (simp add: five_row_given)
  show "(0, 2 - 1) \<in> set (get_neighbors (0, 0) (True, True, True))"
    by (simp add: set_get_neighbors in_range_def row_cells_def)
  show "get_value_from_pos (SudokuState five_row) (0, 2 - 1) = Fixed 5 []"
    by (simp add: five_row_given)
qed

text \<open>
  Claim C2 says that the array returned for an unsolvable puzzle has \<open>-1\<close> in every
  entry. For the grid \<open>five_row\<close>, whose first row is nine times 5 and whose other
  squares are empty, the conflict check answers \<open>-1\<close>, and \<open>get_numpy_proper_state\<close>
  first turns the state into an array: the first row of the state holds ints and the
  other rows hold lists, \<open>np.array\<close> raises \<open>ValueError\<close>, and no array is returned.
\<close>

theorem five_row_raises:
  "check (SudokuState five_row) = - 1 \<and>
   sudoku_solver n five_row = Raise ValueError \<and>
   sudoku_solver n five_row \<noteq> Return all_minus_one"
proof -
  have "get_numpy_state (SudokuState five_row) = Inl ValueError"
  proof (rule get_numpy_state_ragged [of _ "(0, 0)" "(8, 0)"])
    show "wf_state (SudokuState five_row)" by (rule wf_SudokuState [OF proper_five_row])
    show "is_int (get_value_from_pos (SudokuState five_row) (0, 0))"
      by (simp add: five_row_given)
    show "is_list (get_value_from_pos (SudokuState five_row) (8, 0))"
      by (rule five_row_empty)
  qed (simp_all add: in_range_def)
  then show ?thesis
    using check_five_row
    by (simp add: sudoku_solver_def get_solved_numpy_def get_numpy_proper_state_def)
qed

lemma in_range_narrow_positions: "p \<in> set narrow_positions \<Longrightarrow> in_range p"
  by (auto simp: narrow_positions_def in_range_def)

lemma p_in_units: "in_range p \<Longrightarrow> p \<in> row_cells p \<and> p \<in> col_cells p \<and> p \<in> box_cells p"
  by (simp add: row_cells_def col_cells_def box_cells_def)

lemma set_get_sets:
  assumes "in_range p"
  shows "map set (get_sets p) = [row_cells p, col_cells p, box_cells p]"
  using p_in_units [OF assms]
  by (auto simp: get_sets_def set_get_neighbors [OF assms])

lemma unit_lacks_iff:
  "unit_lacks s (set ns) v \<longleftrightarrow> \<not> filled_in s ns v \<and> \<not> value_possible s ns v"
  by (auto simp: unit_lacks_def filled_in_def value_possible_def split: cell.splits)

lemma value_missing_iff:
  "value_missing s \<longleftrightarrow>
     (\<exists>position \<in> set narrow_positions.
        \<exists>u \<in> {row_cells position, col_cells position, box_cells position}.
          \<exists>v \<in> {1..9}. unit_lacks s u v)"
proof -
  have "(\<exists>ns \<in> set (get_sets p). \<exists>v \<in> set [1..9]. \<not> filled_in s ns v \<and> \<not> value_possible s ns v)
        \<longleftrightarrow> (\<exists>u \<in> {row_cells p, col_cells p, box_cells p}. \<exists>v \<in> {1..9}. unit_lacks s u v)"
    if "p \<in> set narrow_positions" for p
  proof -
    have "set (map set (get_sets p)) = {row_cells p, col_cells p, box_cells p}"
      using set_get_sets [OF in_range_narrow_positions [OF that]] by simp
    then have "(\<exists>u \<in> {row_cells p, col_cells p, box_cells p}. \<exists>v \<in> {1..9}. unit_lacks s u v)
      \<longleftrightarrow> (\<exists>u \<in> set (map set (get_sets p)). \<exists>v \<in> {1..9}. unit_lacks s u v)"
      by simp
    also have "\<dots> \<longleftrightarrow> (\<exists>ns \<in> set (get_sets p). \<exists>v \<in> {1..9}. unit_lacks s (set ns) v)"
      by (simp only: set_map bex_simps(7))
    finally show ?thesis by (simp add: unit_lacks_iff)
  qed
  then show ?thesis by (simp add: value_missing_def)
qed

lemma narrow_value_missing: "value_missing s \<Longrightarrow> narrow n s = Return (- 1, s)"
  by (simp add: narrow_def)

lemma uniform_state_at:
  "in_range q \<Longrightarrow> get_value_from_pos (replicate 9 (replicate 9 c)) q = c"
  by (simp add: in_range_def get_value_from_pos_def)

text \<open>
  Claim C7: the nine positions inspected by the first pass of \<open>narrow\<close> lie in nine
  different rows, nine different columns and nine different boxes, and \<open>narrow\<close> returns
  \<open>-1\<close> whenever some digit 1..9 is neither the value nor a candidate of any square in
  the row, the column or the box of one of these positions.
\<close>

theorem narrow_sanity_pass:
  "length narrow_positions = 9 \<and>
   set (map fst narrow_positions) = {0..<9} \<and>
   set (map snd narrow_positions) = {0..<9} \<and>
   set (map (\<lambda>p. (fst p div 3, snd p div 3)) narrow_positions) = {0..<3} \<times> {0..<3} \<and>
   (position \<in> set narrow_positions \<and>
    u \<in> {row_cells position, col_cells position, box_cells position} \<and>
    1 \<le> v \<and> v \<le> 9 \<and> unit_lacks s u v
      \<longrightarrow> narrow n s = Return (- 1, s))"
proof (intro conjI impI)
  show "length narrow_positions = 9" by (simp add: narrow_positions_def)
  show "set (map fst narrow_positions) = {0..<9}"
    by (auto simp: narrow_positions_def)
  show "set (map snd narrow_positions) = {0..<9}"
    by (auto simp: narrow_positions_def)
  show "set (map (\<lambda>p. (fst p div 3, snd p div 3)) narrow_positions) = {0..<3} \<times> {0..<3}"
    by code_simp
next
  assume "position \<in> set narrow_positions \<and>
    u \<in> {row_cells position, col_cells position, box_cells position} \<and>
    1 \<le> v \<and> v \<le> 9 \<and> unit_lacks s u v"
  then have "value_missing s"
    unfolding value_missing_iff by (intro bexI [of _ position] bexI [of _ u] bexI [of _ v]) auto
  then show "narrow n s = Return (- 1, s)" by (rule narrow_value_missing)
qed

theorem narrow_sanity_pass_witness:
  "(0, 0) \<in> set narrow_positions \<and>
   row_cells (0, 0) \<in> {row_cells (0, 0), col_cells (0, 0), box_cells (0, 0)} \<and>
   (1 :: int) \<le> 9 \<and> (9 :: int) \<le> 9 \<and> unit_lacks low_state (row_cells (0, 0)) 9 \<and>
   narrow 0 low_state = Return (- 1, low_state)"
proof -
  have l: "unit_lacks low_state (row_cells (0, 0)) 9"
    by (simp add: unit_lacks_def row_cells_def low_state_def uniform_state_at)
  have p: "(0, 0) \<in> set narrow_positions"
    by (simp add: narrow_positions_def)
  show ?thesis
    using narrow_sanity_pass [of "(0, 0)" "row_cells (0, 0)" 9 low_state 0] l p by simp
qed

lemma evolves_fixedD:
  assumes "evolves s s'" "in_range p" "get_value_from_pos s p = Fixed v old"
  shows "get_value_from_pos s' p = Fixed v old"
proof -
  have "case get_value_from_pos s p of
          Fixed v old \<Rightarrow> get_value_from_pos s' p = Fixed v old
        | Cands l \<Rightarrow> set (list_of (get_value_from_pos s' p)) \<subseteq> set l"
    using assms(1,2) unfolding evolves_def by blast
  then show ?thesis using assms(3) by simp
qed

lemma fill_in_square_fills:
  assumes "good s" "in_range p" "1 \<le> v" "v \<le> 9" "get_value_from_pos s p = Cands l"
    and "fill_in_square n s p v = Return (r, s')"
  shows "get_value_from_pos s' p = Fixed v l"
proof (cases n)
  case 0
  then show ?thesis using assms(6) by simp
next
  case (Suc m)
  let ?s0 = "set_value s p (Fixed v l)"
  let ?en = "get_empty_neighbours s p (True, True, True)"
  have g0: "good ?s0"
    by (rule good_fill_step [OF assms(1,5,3,4)])
  have at0: "get_value_from_pos ?s0 p = Fixed v l"
    using assms(1,2) by (simp add: get_set_value good_def)
  obtain r1 red s1 where rm: "remove_from_neighbours v ?en [] ?s0 = Inr (r1, red, s1)"
    and g1: "good s1" and e1: "evolves ?s0 s1" and red: "set red \<subseteq> set ?en"
    using remove_from_neighbours_good [OF g0, where v = v and nps = ?en and reduced = "[]"]
    by (auto split: sum.splits)
  have at1: "get_value_from_pos s1 p = Fixed v l"
    by (rule evolves_fixedD [OF e1 assms(2) at0])
  show ?thesis
  proof (cases "r1 = - 1")
    case True
    then show ?thesis using assms(5,6) Suc rm at1 by (simp add: fill_body_def)
  next
    case False
    have rng: "\<forall>rp \<in> set red. in_range rp"
      using red in_range_get_empty_neighbours [OF assms(2)] by blast
    have "post {0, - 1} s1 (check_reduced (fill_in_square m) s1 red)"
      by (rule check_reduced_post [OF fill_in_square_ok g1 rng])
    moreover have "check_reduced (fill_in_square m) s1 red = Return (r, s')"
      using assms(5,6) Suc rm False by (simp add: fill_body_def)
    ultimately have "evolves s1 s'" by (simp add: post_Return)
    then show ?thesis by (rule evolves_fixedD [OF _ assms(2) at1])
  qed
qed

lemma lone_neighbours:
  assumes "lone_square s sq"
  shows "get_empty_neighbours s sq (sec0, sec1, sec2) = []"
proof -
  have "\<not> is_list (get_value_from_pos s q)"
    if q: "q \<in> set (get_neighbors sq (sec0, sec1, sec2))" for q
  proof -
    have sq: "in_range sq" using assms by (simp add: lone_square_def)
    have "in_range q" by (rule in_range_get_neighbors [OF sq q])
    moreover have "q \<noteq> sq" using q by (simp add: set_get_neighbors [OF sq])
    ultimately have "is_int (get_value_from_pos s q)"
      using assms unfolding lone_square_def by blast
    then show ?thesis by (cases "get_value_from_pos s q") simp_all
  qed
  then show ?thesis by (simp add: get_empty_neighbours_def filter_empty_conv)
qed

lemma lone_fill:
  "lone_square s sq \<Longrightarrow> get_value_from_pos s sq = Cands l \<Longrightarrow>
   fill_in_square (Suc n) s sq v = Return (0, set_value s sq (Fixed v l))"
  by (simp add: fill_body_def lone_neighbours)

lemma lone_set_value: "lone_square s sq \<Longrightarrow> lone_square (set_value s sq c) sq"
  unfolding lone_square_def by (simp add: wf_set_value get_set_value)

lemma lone_get: "lone_square s sq \<Longrightarrow> get_value_from_pos (set_value s sq c) sq = c"
  unfolding lone_square_def by (simp add: get_set_value)

lemma set_value_twice: "set_value (set_value s p a) p b = set_value s p b"
  by (cases "fst p < length s") (simp_all add: set_value_def list_update_beyond)

lemma solve_value_missing: "value_missing s \<Longrightarrow> solve (Suc n) s = Return (- 1, s)"
  by (simp add: solve_body_def narrow_value_missing)

lemma row_lacks_missing:
  "unit_lacks s (row_cells (0, 0)) v \<Longrightarrow> 1 \<le> v \<Longrightarrow> v \<le> 9 \<Longrightarrow> value_missing s"
  unfolding value_missing_iff
  by (intro bexI [of _ "(0, 0)"] bexI [of _ "row_cells (0, 0)"] bexI [of _ v])
     (simp_all add: narrow_positions_def)

lemma proper_three_grid: "proper_grid three_grid"
  by (auto simp: proper_grid_def three_grid_def)

lemma grid_at_three:
  "in_range q \<Longrightarrow> grid_at three_grid q = (if q = (0, 0) then 0 else 3)"
  by (cases q) (auto simp: grid_at_def three_grid_def in_range_def nth_Cons split: nat.splits)

lemma initial_candidates_three:
  "initial_candidates three_grid (0, 0) = [1, 2, 4, 5, 6, 7, 8, 9]"
proof -
  have i: "in_range (0, 0)" by (simp add: in_range_def)
  have n: "(0, 2 - 1) \<in> set (get_neighbors (0, 0) (True, True, True))"
    by (simp add: set_get_neighbors in_range_def row_cells_def)
  have "(\<forall>q \<in> set (get_neighbors (0, 0) (True, True, True)). grid_at three_grid q \<noteq> d)
        \<longleftrightarrow> d \<noteq> 3" for d
  proof
    assume "\<forall>q \<in> set (get_neighbors (0, 0) (True, True, True)). grid_at three_grid q \<noteq> d"
    then have "grid_at three_grid (0, 2 - 1) \<noteq> d" using n by blast
    then show "d \<noteq> 3" by (simp add: grid_at_three in_range_def)
  next
    assume d: "d \<noteq> 3"
    show "\<forall>q \<in> set (get_neighbors (0, 0) (True, True, True)). grid_at three_grid q \<noteq> d"
    proof
      fix q assume q: "q \<in> set (get_neighbors (0, 0) (True, True, True))"
      have "in_range q" by (rule in_range_get_neighbors [OF i q])
      moreover have "q \<noteq> (0, 0)" using q by (simp add: set_get_neighbors [OF i])
      ultimately show "grid_at three_grid q \<noteq> d" using d by (simp add: grid_at_three)
    qed
  qed
  then show ?thesis by (simp add: initial_candidates_def)
qed

lemma three_state_at:
  "in_range q \<Longrightarrow>
   get_value_from_pos (SudokuState three_grid) q =
     (if q = (0, 0) then Cands [1, 2, 4, 5, 6, 7, 8, 9] else Fixed 3 [])"
  using SudokuState_given [OF proper_three_grid, of q]
    SudokuState_empty [OF proper_three_grid, of q]
  by (cases "q = (0, 0)") (simp_all add: grid_at_three initial_candidates_three)

lemma three_state_corner:
  "get_value_from_pos (SudokuState three_grid) (0, 0) = Cands [1, 2, 4, 5, 6, 7, 8, 9]"
  by (simp add: three_state_at in_range_def)

lemma lone_three: "lone_square (SudokuState three_grid) (0, 0)"
  by (simp add: lone_square_def wf_SudokuState [OF proper_three_grid] three_state_at in_range_def)

lemma three_least:
  "least_constraining_value (SudokuState three_grid) (0, 0) = Inr 1"
  by (simp add: least_constraining_value_def three_state_corner lone_neighbours [OF lone_three]
        dict_add_def)

lemma three_filled_missing:
  assumes "v \<noteq> w" "v \<noteq> 3" "1 \<le> v" "v \<le> 9"
  shows "value_missing (set_value (SudokuState three_grid) (0, 0) (Fixed w old))"
proof (rule row_lacks_missing [OF _ assms(3,4)])
  show "unit_lacks (set_value (SudokuState three_grid) (0, 0) (Fixed w old)) (row_cells (0, 0)) v"
    unfolding unit_lacks_def
  proof
    fix q assume "q \<in> row_cells (0, 0)"
    then have "in_range q" by (simp add: row_cells_def)
    then show "case get_value_from_pos (set_value (SudokuState three_grid) (0, 0) (Fixed w old)) q
                of Fixed u old \<Rightarrow> u \<noteq> v | Cands l \<Rightarrow> v \<notin> set l"
      using assms(1,2)
      by (simp add: get_set_value wf_SudokuState [OF proper_three_grid] three_state_at in_range_def)
  qed
qed

lemma three_fill:
  "fill_in_square (Suc n) (SudokuState three_grid) (0, 0) v =
     Return (0, set_value (SudokuState three_grid) (0, 0) (Fixed v [1, 2, 4, 5, 6, 7, 8, 9]))"
  by (rule lone_fill [OF lone_three three_state_corner])

lemma three_guess_fails:
  "solve (Suc n) (set_value (SudokuState three_grid) (0, 0) (Fixed 1 old)) =
     Return (- 1, set_value (SudokuState three_grid) (0, 0) (Fixed 1 old))"
  by (rule solve_value_missing [OF three_filled_missing [of 2]]) simp_all

lemma three_analysis:
  "analise_empty_value (Suc n)
     (set_value (SudokuState three_grid) (0, 0) (Cands [2, 4, 5, 6, 7, 8, 9])) (0, 0) =
   Return (0, set_value (SudokuState three_grid) (0, 0) (Fixed 2 [2, 4, 5, 6, 7, 8, 9]))"
proof -
  let ?t = "set_value (SudokuState three_grid) (0, 0) (Cands [2, 4, 5, 6, 7, 8, 9])"
  let ?u = "set_value (SudokuState three_grid) (0, 0) (Fixed 2 [2, 4, 5, 6, 7, 8, 9])"
  have lt: "lone_square ?t (0, 0)" by (rule lone_set_value [OF lone_three])
  have gt: "get_value_from_pos ?t (0, 0) = Cands [2, 4, 5, 6, 7, 8, 9]"
    by (rule lone_get [OF lone_three])
  have gu: "get_value_from_pos ?u (0, 0) = Fixed 2 [2, 4, 5, 6, 7, 8, 9]"
    by (rule lone_get [OF lone_three])
  have f: "fill_in_square (Suc n) ?t (0, 0) 2 = Return (0, ?u)"
    using lone_fill [OF lt gt, of n 2] by (simp add: set_value_twice)
  have v1: "analise_values (fill_in_square n') ?u (0, 0) [2, 4, 5, 6, 7, 8, 9] [(0, 0)] vs
            = Return (0, ?u)" for n' vs
    by (induction vs) (simp_all add: counts_of_def gu)
  have v0: "analise_values (fill_in_square (Suc n)) ?t (0, 0) [2, 4, 5, 6, 7, 8, 9] [(0, 0)]
              [1, 2, 3, 4, 5, 6, 7, 8, 9] = Return (0, ?u)"
    by (simp add: counts_of_def gt gu f v1 del: fill_in_square.simps)
  show ?thesis
    by (simp add: analise_empty_value_def analise_def gt emtpy_neighbour_sets_def
          lone_neighbours [OF lt] upto_1_9 v0 v1 del: fill_in_square.simps analise_values.simps)
qed

lemma three_loop:
  "solve_loop (Suc (Suc (Suc n))) (0, 0) (SudokuState three_grid) (SudokuState three_grid) =
   Return (- 1, set_value (SudokuState three_grid) (0, 0) (Fixed 2 [2, 4, 5, 6, 7, 8, 9]))"
proof -
  let ?u = "set_value (SudokuState three_grid) (0, 0) (Fixed 2 [2, 4, 5, 6, 7, 8, 9])"
  have gu: "get_value_from_pos ?u (0, 0) = Fixed 2 [2, 4, 5, 6, 7, 8, 9]"
    by (rule lone_get [OF lone_three])
  have u: "solve (Suc n) ?u = Return (- 1, ?u)"
    by (rule solve_value_missing [OF three_filled_missing [of 1]]) simp_all
  have l: "solve_loop (Suc (Suc n)) (0, 0) ?u ?u = Return (- 1, ?u)"
    by (simp add: solve_while_def gu u del: solve.simps)
  show ?thesis
    by (subst solve_loop.simps)
       (simp add: solve_while_def three_state_corner three_least three_fill three_guess_fails
          remove_value_def three_analysis l
          del: solve.simps solve_loop.simps fill_in_square.simps)
qed

text \<open>
  Claim C10: at the head of a turn of the loop of \<open>solve\<close> the state is the snapshot
  \<open>state_copy\<close>, and the guess is taken from the list of the chosen square in it. When
  the guess fails (\<open>fill_in_square\<close> answers \<open>-1\<close>, or it answers \<open>0\<close> and the recursive
  \<open>solve\<close> answers \<open>-1\<close>), the failed state holds the guess as an int in the square; the
  snapshot is made the state again, \<open>remove_value\<close> finds the guess in the list of the
  square there and removes it without raising, and the loop goes on from the snapshot
  with the guess removed: with the analysis of the square and, unless that answers \<open>-1\<close>,
  with the next turn, whose state and snapshot are the state after the analysis.
\<close>

theorem failed_guess_restored:
  assumes "reachable s" "in_range sq" "get_value_from_pos s sq = Cands l" "l \<noteq> []"
  shows "\<exists>guess. least_constraining_value s sq = Inr guess \<and> guess \<in> set l \<and>
     (\<forall>outcome_of_fill s1 s2.
        fill_in_square n s sq guess = Return (outcome_of_fill, s1) \<and>
        (outcome_of_fill = - 1 \<and> s2 = s1 \<or>
         outcome_of_fill = 0 \<and> solve n s1 = Return (- 1, s2))
        \<longrightarrow> get_value_from_pos s2 sq = Fixed guess l \<and>
            remove_value s sq guess = Inr (set_value s sq (Cands (remove1 guess l))) \<and>
            solve_loop (Suc n) sq s s =
              (case analise_empty_value n (set_value s sq (Cands (remove1 guess l))) sq of
                 None \<Rightarrow> None
               | Raise e \<Rightarrow> Raise e
               | Return (outcome_of_analysis, s4) \<Rightarrow>
                   if outcome_of_analysis = - 1 then Return (- 1, s4)
                   else solve_loop n sq s4 s4))"
proof -
  have g: "good s" by (rule reachable_good [OF assms(1)])
  obtain guess where lc: "least_constraining_value s sq = Inr guess" and mem: "guess \<in> set l"
    using least_constraining_value_in [OF assms(3,4)] by blast
  have rg: "1 \<le> guess" "guess \<le> 9"
    using lists_okD [of s sq] g assms(2,3) mem by (auto simp: good_def)
  have rv: "remove_value s sq guess = Inr (set_value s sq (Cands (remove1 guess l)))"
    by (rule remove_value_present [OF assms(3) mem])
  have "get_value_from_pos s2 sq = Fixed guess l \<and>
        remove_value s sq guess = Inr (set_value s sq (Cands (remove1 guess l))) \<and>
        solve_loop (Suc n) sq s s =
          (case analise_empty_value n (set_value s sq (Cands (remove1 guess l))) sq of
             None \<Rightarrow> None
           | Raise e \<Rightarrow> Raise e
           | Return (outcome_of_analysis, s4) \<Rightarrow>
               if outcome_of_analysis = - 1 then Return (- 1, s4)
               else solve_loop n sq s4 s4)"
    if f: "fill_in_square n s sq guess = Return (outcome_of_fill, s1)"
      and o: "outcome_of_fill = - 1 \<and> s2 = s1 \<or>
              outcome_of_fill = 0 \<and> solve n s1 = Return (- 1, s2)"
    for outcome_of_fill s1 s2
  proof -
    have f1: "get_value_from_pos s1 sq = Fixed guess l"
      by (rule fill_in_square_fills [OF g assms(2) rg assms(3) f])
    have g1: "good s1"
      using fill_in_square_post [OF g assms(2) rg, of n] f by (simp add: post_Return)
    have f2: "get_value_from_pos s2 sq = Fixed guess l"
      using o
    proof
      assume "outcome_of_fill = - 1 \<and> s2 = s1"
      then show ?thesis using f1 by simp
    next
      assume a: "outcome_of_fill = 0 \<and> solve n s1 = Return (- 1, s2)"
      then have "evolves s1 s2"
        using solve_post [OF g1, of n] by (simp add: spost_Return)
      then show ?thesis by (rule evolves_fixedD [OF _ assms(2) f1])
    qed
    have lp: "solve_loop (Suc n) sq s s =
          (case analise_empty_value n (set_value s sq (Cands (remove1 guess l))) sq of
             None \<Rightarrow> None
           | Raise e \<Rightarrow> Raise e
           | Return (outcome_of_analysis, s4) \<Rightarrow>
               if outcome_of_analysis = - 1 then Return (- 1, s4)
               else solve_loop n sq s4 s4)"
      using o
    proof
      assume "outcome_of_fill = - 1 \<and> s2 = s1"
      then show ?thesis
        by (subst solve_loop.simps)
           (simp add: solve_while_def assms(3,4) lc f rv
              del: solve.simps solve_loop.simps fill_in_square.simps)
    next
      assume "outcome_of_fill = 0 \<and> solve n s1 = Return (- 1, s2)"
      then show ?thesis
        by (subst solve_loop.simps)
           (simp add: solve_while_def assms(3,4) lc f rv
              del: solve.simps solve_loop.simps fill_in_square.simps)
    qed
    show ?thesis using f2 rv lp by simp
  qed
  then show ?thesis using lc mem by blast
qed

theorem failed_guess_restored_witness:
  "reachable (SudokuState three_grid) \<and> in_range (0, 0) \<and>
   get_value_from_pos (SudokuState three_grid) (0, 0) = Cands [1, 2, 4, 5, 6, 7, 8, 9] \<and>
   [1, 2, 4, 5, 6, 7, 8, 9 :: int] \<noteq> [] \<and>
   least_constraining_value (SudokuState three_grid) (0, 0) = Inr 1 \<and>
   fill_in_square 2 (SudokuState three_grid) (0, 0) 1 =
     Return (0, set_value (SudokuState three_grid) (0, 0) (Fixed 1 [1, 2, 4, 5, 6, 7, 8, 9])) \<and>
   solve 2 (set_value (SudokuState three_grid) (0, 0) (Fixed 1 [1, 2, 4, 5, 6, 7, 8, 9])) =
     Return (- 1, set_value (SudokuState three_grid) (0, 0) (Fixed 1 [1, 2, 4, 5, 6, 7, 8, 9])) \<and>
   get_value_from_pos
     (set_value (SudokuState three_grid) (0, 0) (Fixed 1 [1, 2, 4, 5, 6, 7, 8, 9])) (0, 0) =
     Fixed 1 [1, 2, 4, 5, 6, 7, 8, 9] \<and>
   remove_value (SudokuState three_grid) (0, 0) 1 =
     Inr (set_value (SudokuState three_grid) (0, 0) (Cands [2, 4, 5, 6, 7, 8, 9])) \<and>
   solve_loop 3 (0, 0) (SudokuState three_grid) (SudokuState three_grid) =
     (case analise_empty_value 2
             (set_value (SudokuState three_grid) (0, 0) (Cands [2, 4, 5, 6, 7, 8, 9])) (0, 0) of
        None \<Rightarrow> None
      | Raise e \<Rightarrow> Raise e
      | Return (outcome_of_analysis, s4) \<Rightarrow>
          if outcome_of_analysis = - 1 then Return (- 1, s4)
          else solve_loop 2 (0, 0) s4 s4) \<and>
   solve_loop 3 (0, 0) (SudokuState three_grid) (SudokuState three_grid) =
     Return (- 1, set_value (SudokuState three_grid) (0, 0) (Fixed 2 [2, 4, 5, 6, 7, 8, 9]))"
proof -
  let ?t = "SudokuState three_grid"
  let ?t1 = "set_value ?t (0, 0) (Fixed 1 [1, 2, 4, 5, 6, 7, 8, 9])"
  have r: "reachable ?t" by (rule reachable.construct [OF proper_three_grid])
  have i: "in_range (0, 0)" by (simp add: in_range_def)
  have ne: "[1, 2, 4, 5, 6, 7, 8, 9 :: int] \<noteq> []" by simp
  have f: "fill_in_square 2 ?t (0, 0) 1 = Return (0, ?t1)"
    using three_fill [of "Suc 0" 1] by (simp only: numeral_2_eq_2)
  have sv: "solve 2 ?t1 = Return (- 1, ?t1)"
    using three_guess_fails [of "Suc 0"] by (simp only: numeral_2_eq_2)
  obtain guess where lc: "least_constraining_value ?t (0, 0) = Inr guess"
    and imp: "\<forall>outcome_of_fill s1 s2.
        fill_in_square 2 ?t (0, 0) guess = Return (outcome_of_fill, s1) \<and>
        (outcome_of_fill = - 1 \<and> s2 = s1 \<or>
         outcome_of_fill = 0 \<and> solve 2 s1 = Return (- 1, s2))
        \<longrightarrow> get_value_from_pos s2 (0, 0) = Fixed guess [1, 2, 4, 5, 6, 7, 8, 9] \<and>
            remove_value ?t (0, 0) guess =
              Inr (set_value ?t (0, 0) (Cands (remove1 guess [1, 2, 4, 5, 6, 7, 8, 9]))) \<and>
            solve_loop (Suc 2) (0, 0) ?t ?t =
              (case analise_empty_value 2
                 (set_value ?t (0, 0) (Cands (remove1 guess [1, 2, 4, 5, 6, 7, 8, 9]))) (0, 0) of
                 None \<Rightarrow> None
               | Raise e \<Rightarrow> Raise e
               | Return (outcome_of_analysis, s4) \<Rightarrow>
                   if outcome_of_analysis = - 1 then Return (- 1, s4)
                   else solve_loop 2 (0, 0) s4 s4)"
    using failed_guess_restored [OF r i three_state_corner ne, of 2] by blast
  have g1: "guess = 1" using lc three_least by simp
  have c: "get_value_from_pos ?t1 (0, 0) = Fixed 1 [1, 2, 4, 5, 6, 7, 8, 9] \<and>
      remove_value ?t (0, 0) 1 =
        Inr (set_value ?t (0, 0) (Cands (remove1 1 [1, 2, 4, 5, 6, 7, 8, 9]))) \<and>
      solve_loop (Suc 2) (0, 0) ?t ?t =
        (case analise_empty_value 2
           (set_value ?t (0, 0) (Cands (remove1 1 [1, 2, 4, 5, 6, 7, 8, 9]))) (0, 0) of
           None \<Rightarrow> None
         | Raise e \<Rightarrow> Raise e
         | Return (outcome_of_analysis, s4) \<Rightarrow>
             if outcome_of_analysis = - 1 then Return (- 1, s4)
             else solve_loop 2 (0, 0) s4 s4)"
    using imp [rule_format, of 0 ?t1 ?t1] f sv unfolding g1 by blast
  have three: "Suc 2 = 3" by simp
  have rm: "remove1 1 [1, 2, 4, 5, 6, 7, 8, 9 :: int] = [2, 4, 5, 6, 7, 8, 9]" by simp
  have lp: "solve_loop 3 (0, 0) ?t ?t =
     Return (- 1, set_value ?t (0, 0) (Fixed 2 [2, 4, 5, 6, 7, 8, 9]))"
    using three_loop [of 0] by (simp only: numeral_3_eq_3)
  show ?thesis
    using r i three_state_corner ne three_least f sv c [unfolded three rm] lp
    by blast
qed

lemma finite_in_range: "finite {p. in_range p}"
proof -
  have "{p. in_range p} = {0..<9} \<times> {0..<9}"
    by (auto simp: in_range_def)
  then show ?thesis by simp
qed

lemma card_row_cells: "in_range p \<Longrightarrow> card (row_cells p) = 9"
proof -
  assume p: "in_range p"
  have "inj_on (\<lambda>i. (fst p, i)) (set [0..<9])" by (simp add: inj_on_def)
  then have "card ((\<lambda>i. (fst p, i)) ` set [0..<9]) = card (set [0..<9])"
    by (rule card_image)
  then show ?thesis by (simp add: row_image [OF p] del: set_upt) simp
qed

lemma card_col_cells: "in_range p \<Longrightarrow> card (col_cells p) = 9"
proof -
  assume p: "in_range p"
  have "inj_on (\<lambda>i. (i, snd p)) (set [0..<9])" by (simp add: inj_on_def)
  then have "card ((\<lambda>i. (i, snd p)) ` set [0..<9]) = card (set [0..<9])"
    by (rule card_image)
  then show ?thesis by (simp add: col_image [OF p] del: set_upt) simp
qed

lemma card_box_cells: "in_range p \<Longrightarrow> card (box_cells p) = 9"
proof -
  assume p: "in_range p"
  let ?f = "\<lambda>bp. (fst (fst p - fst p mod 3, snd p - snd p mod 3) + fst bp,
                snd (fst p - fst p mod 3, snd p - snd p mod 3) + snd bp)"
  have "inj_on ?f (set (List.product [0..<3] [0..<3]))"
    by (auto simp: inj_on_def)
  then have "card (?f ` set (List.product [0..<3] [0..<3])) = card (set (List.product [0..<3] [0..<3]))"
    by (rule card_image)
  moreover have "card (set (List.product [0..<3] [0..<3])) = 9"
    by (simp add: card_cartesian_product)
  ultimately show ?thesis by (simp only: box_image [OF p])
qed

lemma units_finite_card:
  "in_range p \<Longrightarrow> u \<in> units_of p \<Longrightarrow> finite u \<and> card u = 9 \<and> u \<subseteq> {q. in_range q}"
proof -
  assume p: "in_range p" and u: "u \<in> units_of p"
  have sub: "u \<subseteq> {q. in_range q}"
    using u by (auto simp: units_of_def row_cells_def col_cells_def box_cells_def)
  then have "finite u" using finite_in_range by (rule finite_subset)
  moreover have "card u = 9"
    using u card_row_cells [OF p] card_col_cells [OF p] card_box_cells [OF p]
    by (auto simp: units_of_def)
  ultimately show ?thesis using sub by simp
qed

lemma row_cells_cong: "fst p = fst q \<Longrightarrow> row_cells p = row_cells q"
  by (simp add: row_cells_def)

lemma col_cells_cong: "snd p = snd q \<Longrightarrow> col_cells p = col_cells q"
  by (simp add: col_cells_def)

lemma box_cells_cong:
  "(fst p div 3, snd p div 3) = (fst q div 3, snd q div 3) \<Longrightarrow> box_cells p = box_cells q"
  by (simp add: box_cells_def)

lemma narrow_positions_cover:
  assumes "in_range p" "u \<in> units_of p"
  shows "\<exists>position \<in> set narrow_positions. u \<in> units_of position"
proof -
  have f: "set (map fst narrow_positions) = {0..<9}" by code_simp
  have s: "set (map snd narrow_positions) = {0..<9}" by code_simp
  have b: "set (map (\<lambda>p. (fst p div 3, snd p div 3)) narrow_positions) = {0..<3} \<times> {0..<3}"
    by code_simp
  consider "u = row_cells p" | "u = col_cells p" | "u = box_cells p"
    using assms(2) by (auto simp: units_of_def)
  then show ?thesis
  proof cases
    case 1
    have "fst p \<in> set (map fst narrow_positions)"
      using assms(1) by (simp only: f) (simp add: in_range_def)
    then obtain q where "q \<in> set narrow_positions" "fst q = fst p" by auto
    then show ?thesis using 1 row_cells_cong [of q p] by (auto simp: units_of_def)
  next
    case 2
    have "snd p \<in> set (map snd narrow_positions)"
      using assms(1) by (simp only: s) (simp add: in_range_def)
    then obtain q where "q \<in> set narrow_positions" "snd q = snd p" by auto
    then show ?thesis using 2 col_cells_cong [of q p] by (auto simp: units_of_def)
  next
    case 3
    have "(fst p div 3, snd p div 3) \<in> set (map (\<lambda>p. (fst p div 3, snd p div 3)) narrow_positions)"
      using assms(1) by (simp only: b) (auto simp: in_range_def)
    then obtain q where "q \<in> set narrow_positions"
        "(fst q div 3, snd q div 3) = (fst p div 3, snd p div 3)" by auto
    then show ?thesis using 3 box_cells_cong [of q p] by (auto simp: units_of_def)
  qed
qed

text \<open>a filled grid that passes the first pass of narrow\<close>

lemma passed_unit_has_value:
  assumes "\<not> value_missing s" "is_solved s = 1" "in_range p" "u \<in> units_of p" "1 \<le> v" "v \<le> 9"
  shows "\<exists>q \<in> u. value_at s q = v"
proof -
  obtain position where pos: "position \<in> set narrow_positions" "u \<in> units_of position"
    using narrow_positions_cover [OF assms(3,4)] by blast
  have "\<not> unit_lacks s u v"
    using assms(1,5,6) pos unfolding value_missing_iff units_of_def by auto
  then obtain q where q: "q \<in> u"
      "\<not> (case get_value_from_pos s q of Fixed w old \<Rightarrow> w \<noteq> v | Cands l \<Rightarrow> v \<notin> set l)"
    unfolding unit_lacks_def by blast
  have "in_range q"
    using units_finite_card [OF assms(3,4)] q(1) by blast
  then have "is_int (get_value_from_pos s q)"
    by (rule is_solved_fixed [OF assms(2)])
  then have "value_at s q = v"
    using q(2) by (cases "get_value_from_pos s q") (simp_all add: value_at_def)
  then show ?thesis using q(1) by blast
qed

lemma passed_unit_inj:
  assumes "\<not> value_missing s" "is_solved s = 1" "in_range p" "u \<in> units_of p"
  shows "inj_on (value_at s) u"
proof -
  note fc = units_finite_card [OF assms(3,4)]
  have "{1..9} \<subseteq> value_at s ` u"
  proof
    fix v :: int assume "v \<in> {1..9}"
    then obtain q where "q \<in> u" "value_at s q = v"
      using passed_unit_has_value [OF assms, of v] by auto
    then show "v \<in> value_at s ` u" by blast
  qed
  then have "card {1..9::int} \<le> card (value_at s ` u)"
    using fc by (intro card_mono) auto
  then have "card (value_at s ` u) \<ge> 9" by simp
  moreover have "card (value_at s ` u) \<le> card u"
    using fc by (intro card_image_le) simp
  ultimately have "card (value_at s ` u) = card u"
    using fc by simp
  then show ?thesis
    using fc by (intro eq_card_imp_inj_on) simp_all
qed

lemma neighbour_shares_unit:
  "in_range p \<Longrightarrow> q \<in> set (get_neighbors p (True, True, True))
   \<Longrightarrow> q \<noteq> p \<and> (\<exists>u \<in> units_of p. p \<in> u \<and> q \<in> u)"
  using p_in_units [of p] by (auto simp: set_get_neighbors units_of_def)

lemma passed_check:
  assumes "\<not> value_missing s" "is_solved s = 1"
  shows "check s = 0"
proof -
  have "\<not> filled_in s (get_neighbors p (True, True, True)) v"
    if pr: "in_range p" and fx: "get_value_from_pos s p = Fixed v old" for p v old
  proof
    assume "filled_in s (get_neighbors p (True, True, True)) v"
    then obtain q where q: "q \<in> set (get_neighbors p (True, True, True))"
        "case get_value_from_pos s q of Fixed w old \<Rightarrow> w = v | Cands l \<Rightarrow> False"
      unfolding filled_in_def by blast
    then have vq: "value_at s q = v"
      by (cases "get_value_from_pos s q") (simp_all add: value_at_def)
    have vp: "value_at s p = v" using fx by (simp add: value_at_def)
    obtain u where u: "u \<in> units_of p" "p \<in> u" "q \<in> u" "q \<noteq> p"
      using neighbour_shares_unit [OF pr q(1)] by blast
    show False
      using passed_unit_inj [OF assms pr u(1)] u vq vp by (auto simp: inj_on_def)
  qed
  then have "\<not> (\<exists>position \<in> set all_positions.
           case get_value_from_pos s position of
             Fixed v old \<Rightarrow> filled_in s (get_neighbors position (True, True, True)) v
           | Cands l \<Rightarrow> False)"
    by (auto simp: set_all_positions split: cell.splits)
  then show ?thesis by (simp add: check_def)
qed

























lemma filter_single:
  "distinct xs \<Longrightarrow> x \<in> set xs \<Longrightarrow> P x \<Longrightarrow> (\<forall>y \<in> set xs. y \<noteq> x \<longrightarrow> \<not> P y)
   \<Longrightarrow> filter P xs = [x]"
proof (induction xs)
  case Nil
  then show ?case by simp
next
  case (Cons a xs)
  show ?case
  proof (cases "a = x")
    case True
    then have "\<forall>y \<in> set xs. \<not> P y" using Cons.prems by auto
    then have "filter P xs = []" by (simp add: filter_empty_conv)
    then show ?thesis using True Cons.prems(3) by simp
  next
    case False
    then show ?thesis using Cons by auto
  qed
qed








lemma keeps_intsD:
  "keeps_ints s s' \<Longrightarrow> in_range p \<Longrightarrow> get_value_from_pos s p = Fixed v old
   \<Longrightarrow> get_value_from_pos s' p = Fixed v old"
  unfolding keeps_ints_def by blast

















lemma seven_state_0_2: "get_value_from_pos seven_state (0, 2) = Cands [7]"
  by (simp add: seven_state_def get_set_value wf_one_five_state in_range_def)

lemma analise_values_answers_filled:
  "analise_values answers_filled s position cur ns vs = Return (0, s)"
  by (induction vs) (simp_all add: answers_filled_def split: list.splits)

lemma analise_sets_answers_filled:
  "analise_sets answers_filled s position cur nss = Return (0, s)"
  by (induction nss) (simp_all add: analise_values_answers_filled)

lemma analise_answers_filled:
  "get_value_from_pos s position = Cands l \<Longrightarrow> l \<noteq> [] \<Longrightarrow>
   analise answers_filled s position = Return (0, s)"
  by (simp add: analise_def analise_sets_answers_filled)

section \<open>Filling in a square that is already filled in (claim C6)\<close>

text \<open>
  Claim C6 says that \<open>fill_in_square\<close> on a square that already holds an int signals a
  fatal error and is not passed over. The code returns a result code, \<open>-2\<close>, with the
  state untouched, and the loops that call \<open>fill_in_square\<close> go on after a \<open>-2\<close>: here the
  loop of \<open>narrow\<close> and the loop over the reduced positions both end with \<open>0\<close>.
\<close>

theorem fill_in_square_fixed_counterexample:
  "get_value_from_pos one_five_state (0, 0) = Fixed 5 [] \<and>
   fill_in_square 1 one_five_state (0, 0) 5 = Return (- 2, one_five_state) \<and>
   narrow_squares (\<lambda>s position v. Return (- 2, s))
     (set_value one_five_state (0, 2) (Cands [7])) [(0, 2)] =
   Return (0, set_value one_five_state (0, 2) (Cands [7])) \<and>
   check_reduced (\<lambda>s position v. Return (- 2, s))
     (set_value one_five_state (0, 2) (Cands [7])) [(0, 2)] =
   Return (0, set_value one_five_state (0, 2) (Cands [7]))"
  using analise_answers_filled [OF seven_state_0_2]
  by (simp add: fill_body_def one_five_state_0_0 get_set_value wf_one_five_state in_range_def
        answers_filled_def seven_state_def)

text \<open>
  Claim C6, amended: on a square that already holds an int, \<open>fill_in_square\<close> raises
  nothing and returns with the state unchanged (the code it returns is \<open>-2\<close>). The loops
  that call \<open>fill_in_square\<close> pass over a \<open>-2\<close> and go on with their next turn: the loop
  of \<open>narrow\<close> over the empty squares, the loop of \<open>fill_in_square\<close> over the reduced
  positions, and the loop of \<open>analise_empty_value\<close> over the values. The loops are stated
  for whatever \<open>fill_in_square\<close> they call, as they call it on list-valued squares only.
\<close>

theorem fill_in_square_fixed:
  "(is_int (get_value_from_pos s position) \<longrightarrow>
      fill_in_square (Suc n) s position v = Return (- 2, s)) \<and>
   (get_value_from_pos s empty_pos = Cands l \<and> length l = 1 \<and>
    fill s empty_pos (hd l) = Return (- 2, s1)
      \<longrightarrow> narrow_squares fill s (empty_pos # rest) = narrow_squares fill s1 rest) \<and>
   (analise fill s reduced_position = Return (outcome, s2) \<and> outcome \<noteq> - 1 \<and>
    get_value_from_pos s2 reduced_position = Cands l2 \<and> length l2 = 1 \<and>
    fill s2 reduced_position (hd l2) = Return (- 2, s3)
      \<longrightarrow> check_reduced fill s (reduced_position # rest) = check_reduced fill s3 rest) \<and>
   (counts_of s position cur emtpy_neighbour_set d = [pos] \<and>
    is_list (get_value_from_pos s pos) \<and> fill s pos d = Return (- 2, s4)
      \<longrightarrow> analise_values fill s position cur emtpy_neighbour_set (d # vs) =
          analise_values fill s4 position cur emtpy_neighbour_set vs)"
proof (intro conjI impI)
  assume "is_int (get_value_from_pos s position)"
  then show "fill_in_square (Suc n) s position v = Return (- 2, s)"
    by (cases "get_value_from_pos s position") (simp_all add: fill_body_def)
next
  assume "get_value_from_pos s empty_pos = Cands l \<and> length l = 1 \<and>
    fill s empty_pos (hd l) = Return (- 2, s1)"
  then show "narrow_squares fill s (empty_pos # rest) = narrow_squares fill s1 rest"
    by simp
next
  assume "analise fill s reduced_position = Return (outcome, s2) \<and> outcome \<noteq> - 1 \<and>
    get_value_from_pos s2 reduced_position = Cands l2 \<and> length l2 = 1 \<and>
    fill s2 reduced_position (hd l2) = Return (- 2, s3)"
  then show "check_reduced fill s (reduced_position # rest) = check_reduced fill s3 rest"
    by simp
next
  assume "counts_of s position cur emtpy_neighbour_set d = [pos] \<and>
    is_list (get_value_from_pos s pos) \<and> fill s pos d = Return (- 2, s4)"
  then show "analise_values fill s position cur emtpy_neighbour_set (d # vs) =
          analise_values fill s4 position cur emtpy_neighbour_set vs"
    by simp
qed

theorem fill_in_square_fixed_witness:
  "is_int (get_value_from_pos one_five_state (0, 0)) \<and>
   fill_in_square (Suc 0) one_five_state (0, 0) 5 = Return (- 2, one_five_state) \<and>
   get_value_from_pos seven_state (0, 2) = Cands [7] \<and> length [7 :: int] = 1 \<and>
   answers_filled seven_state (0, 2) (hd [7]) = Return (- 2, seven_state) \<and>
   narrow_squares answers_filled seven_state [(0, 2)] =
     narrow_squares answers_filled seven_state [] \<and>
   analise answers_filled seven_state (0, 2) = Return (0, seven_state) \<and> (0 :: int) \<noteq> - 1 \<and>
   check_reduced answers_filled seven_state [(0, 2)] =
     check_reduced answers_filled seven_state [] \<and>
   counts_of seven_state (0, 2) [7] [(0, 2)] 7 = [(0, 2)] \<and>
   is_list (get_value_from_pos seven_state (0, 2)) \<and>
   analise_values answers_filled seven_state (0, 2) [7] [(0, 2)] [7] =
     analise_values answers_filled seven_state (0, 2) [7] [(0, 2)] []"
proof -
  have a: "answers_filled seven_state (0, 2) (hd [7]) = Return (- 2, seven_state)"
    "answers_filled seven_state (0, 2) 7 = Return (- 2, seven_state)"
    by (simp_all add: answers_filled_def)
  have an: "analise answers_filled seven_state (0, 2) = Return (0, seven_state)"
    by (rule analise_answers_filled [OF seven_state_0_2]) simp
  have c: "counts_of seven_state (0, 2) [7] [(0, 2)] 7 = [(0, 2)]"
    by (simp add: counts_of_def)
  note inst = fill_in_square_fixed [where s = seven_state and fill = answers_filled
      and empty_pos = "(0, 2)" and l = "[7]" and ?s1.0 = seven_state
      and reduced_position = "(0, 2)" and outcome = 0 and ?s2.0 = seven_state and ?l2.0 = "[7]"
      and ?s3.0 = seven_state and position = "(0, 2)" and cur = "[7]"
      and emtpy_neighbour_set = "[(0, 2)]" and d = 7 and pos = "(0, 2)" and ?s4.0 = seven_state
      and rest = "[]" and vs = "[]"]
  have b: "narrow_squares answers_filled seven_state [(0, 2)] =
     narrow_squares answers_filled seven_state []"
    using inst [THEN conjunct2, THEN conjunct1] seven_state_0_2 a by simp
  have cr: "check_reduced answers_filled seven_state [(0, 2)] =
     check_reduced answers_filled seven_state []"
    using inst [THEN conjunct2, THEN conjunct2, THEN conjunct1] seven_state_0_2 a an by simp
  have av: "analise_values answers_filled seven_state (0, 2) [7] [(0, 2)] [7] =
     analise_values answers_filled seven_state (0, 2) [7] [(0, 2)] []"
    using inst [THEN conjunct2, THEN conjunct2, THEN conjunct2] seven_state_0_2 a c by simp
  have f: "fill_in_square (Suc 0) one_five_state (0, 0) 5 = Return (- 2, one_five_state)"
    using fill_in_square_fixed [where s = one_five_state and position = "(0, 0)" and n = 0
      and v = 5, THEN conjunct1]
    by (simp add: one_five_state_0_0)
  show ?thesis
    using f b cr av an c a seven_state_0_2 by (simp add: one_five_state_0_0)
qed

lemma foldl_dict_add_distinct:
  "distinct (acc @ vs) \<Longrightarrow> foldl (\<lambda>ks k. dict_add k ks) acc vs = acc @ vs"
  by (induction vs arbitrary: acc) (simp_all add: dict_add_def)

lemma increment_map:
  "increment v (map (\<lambda>k. (k, f k)) ks) = map (\<lambda>k. (k, if k = v then f k + 1 else f k)) ks"
  by (induction ks) (simp_all add: increment_def)

lemma count_neighbour_map:
  "distinct vs \<Longrightarrow>
   count_neighbour vs (map (\<lambda>k. (k, f k)) ks) pev =
     map (\<lambda>k. (k, f k + (if k \<in> set vs \<and> k \<in> set pev then 1 else 0))) ks"
  unfolding count_neighbour_def
proof (induction vs arbitrary: f)
  case Nil
  then show ?case by simp
next
  case (Cons v vs)
  have d: "distinct vs" "v \<notin> set vs" using Cons.prems by simp_all
  show ?case
  proof (cases "v \<in> set pev")
    case True
    have "foldl (\<lambda>cs v. if v \<in> set pev then increment v cs else cs)
            (map (\<lambda>k. (k, f k)) ks) (v # vs) =
          foldl (\<lambda>cs v. if v \<in> set pev then increment v cs else cs)
            (map (\<lambda>k. (k, if k = v then f k + 1 else f k)) ks) vs"
      using True by (simp add: increment_map)
    also have "\<dots> = map (\<lambda>k. (k, (if k = v then f k + 1 else f k) +
                       (if k \<in> set vs \<and> k \<in> set pev then 1 else 0))) ks"
      by (rule Cons.IH [OF d(1)])
    also have "\<dots> = map (\<lambda>k. (k, f k + (if k \<in> set (v # vs) \<and> k \<in> set pev then 1 else 0))) ks"
      using True d(2) by (intro map_cong) auto
    finally show ?thesis .
  next
    case False
    have "foldl (\<lambda>cs v. if v \<in> set pev then increment v cs else cs)
            (map (\<lambda>k. (k, f k)) ks) (v # vs) =
          foldl (\<lambda>cs v. if v \<in> set pev then increment v cs else cs)
            (map (\<lambda>k. (k, f k)) ks) vs"
      using False by simp
    also have "\<dots> = map (\<lambda>k. (k, f k + (if k \<in> set vs \<and> k \<in> set pev then 1 else 0))) ks"
      by (rule Cons.IH [OF d(1)])
    also have "\<dots> = map (\<lambda>k. (k, f k + (if k \<in> set (v # vs) \<and> k \<in> set pev then 1 else 0))) ks"
      using False by (intro map_cong) auto
    finally show ?thesis .
  qed
qed

lemma foldl_count_neighbour_map:
  "distinct vs \<Longrightarrow>
   foldl (count_neighbour vs) (map (\<lambda>k. (k, f k)) ks) pevs =
     map (\<lambda>k. (k, f k + (if k \<in> set vs then length (filter (\<lambda>pev. k \<in> set pev) pevs) else 0)))
       ks"
proof (induction pevs arbitrary: f)
  case Nil
  then show ?case by simp
next
  case (Cons pev pevs)
  have "foldl (count_neighbour vs) (map (\<lambda>k. (k, f k)) ks) (pev # pevs) =
        foldl (count_neighbour vs)
          (map (\<lambda>k. (k, f k + (if k \<in> set vs \<and> k \<in> set pev then 1 else 0))) ks) pevs"
    by (simp add: count_neighbour_map [OF Cons.prems])
  also have "\<dots> = map (\<lambda>k. (k, f k + (if k \<in> set vs \<and> k \<in> set pev then 1 else 0) +
        (if k \<in> set vs then length (filter (\<lambda>pev. k \<in> set pev) pevs) else 0))) ks"
    by (rule Cons.IH [OF Cons.prems])
  also have "\<dots> = map (\<lambda>k. (k, f k +
        (if k \<in> set vs then length (filter (\<lambda>pev. k \<in> set pev) (pev # pevs)) else 0))) ks"
    by (intro map_cong) auto
  finally show ?case .
qed

lemma neighbour_count_empty_neighbours:
  "neighbour_count s sq d =
     length (filter (\<lambda>pev. d \<in> set pev)
               (map (\<lambda>p. list_of (get_value_from_pos s p))
                  (get_empty_neighbours s sq (True, True, True))))"
proof -
  have "(case c of Fixed w old \<Rightarrow> False | Cands l \<Rightarrow> d \<in> set l) \<longleftrightarrow>
        is_list c \<and> d \<in> set (list_of c)" for c
    by (cases c) simp_all
  then show ?thesis
    by (simp add: neighbour_count_def get_empty_neighbours_def filter_map comp_def conj_commute)
qed

lemma constraints_counts:
  assumes "distinct vs"
  shows "foldl (count_neighbour vs)
           (map (\<lambda>v. (v, 0)) (foldl (\<lambda>ks k. dict_add k ks) [] vs))
           (map (\<lambda>p. list_of (get_value_from_pos s p))
              (get_empty_neighbours s sq (True, True, True))) =
         map (\<lambda>k. (k, neighbour_count s sq k)) vs"
proof -
  have "foldl (\<lambda>ks k. dict_add k ks) [] vs = vs"
    using foldl_dict_add_distinct [of "[]" vs] assms by simp
  then show ?thesis
    using foldl_count_neighbour_map [OF assms, of "\<lambda>k. 0" vs]
    by (simp add: neighbour_count_empty_neighbours cong: map_cong)
qed

lemma sort_key_hd_least:
  assumes "sort_key f xs = c # cs"
  shows "\<forall>y \<in> set xs. f c \<le> f y"
proof -
  have "sorted (map f (c # cs))"
    using sorted_sort_key [of f xs] assms by simp
  moreover have "set xs = set (c # cs)"
    using set_sort [of f xs] assms by simp
  ultimately show ?thesis by auto
qed

lemma sort_key_hd_first:
  assumes "sort_key f xs = c # cs"
  shows "\<exists>rest. filter (\<lambda>y. f y = f c) xs = c # rest"
proof -
  have "filter (\<lambda>y. f y = f c) (sort_key f xs) = filter (\<lambda>y. f y = f c) xs"
    by (rule sort_key_stable)
  then have "filter (\<lambda>y. f y = f c) xs = c # filter (\<lambda>y. f y = f c) cs"
    using assms by simp
  then show ?thesis by blast
qed

lemma least_constraining_value_least:
  assumes "get_value_from_pos s sq = Cands l" "l \<noteq> []" "sorted_wrt (<) l"
  shows "\<exists>g. least_constraining_value s sq = Inr g \<and> g \<in> set l \<and>
           (\<forall>d \<in> set l. neighbour_count s sq g \<le> neighbour_count s sq d \<and>
              (neighbour_count s sq d = neighbour_count s sq g \<longrightarrow> g \<le> d))"
proof -
  have dl: "distinct l"
    using assms(3) by (simp add: strict_sorted_iff)
  define xs where "xs = map (\<lambda>k. (k, neighbour_count s sq k)) l"
  have "xs \<noteq> []" using assms(2) by (simp add: xs_def)
  then obtain c cs where c: "sort_key snd xs = c # cs"
    using sort_key_Nil_iff [of snd xs] by (cases "sort_key snd xs") auto
  have lc: "least_constraining_value s sq = Inr (fst c)"
    using assms(1) c
    by (simp add: least_constraining_value_def Let_def constraints_counts [OF dl] xs_def)
  have cin: "c \<in> set xs" by (rule hd_sort_key_in [OF c])
  then have cg: "fst c \<in> set l" "snd c = neighbour_count s sq (fst c)"
    by (auto simp: xs_def)
  have least: "\<forall>d \<in> set l. neighbour_count s sq (fst c) \<le> neighbour_count s sq d"
    using sort_key_hd_least [OF c] cg(2) by (auto simp: xs_def)
  obtain rest where r: "filter (\<lambda>y. snd y = snd c) xs = c # rest"
    using sort_key_hd_first [OF c] by blast
  have "map fst (filter (\<lambda>y. snd y = snd c) xs) =
        filter (\<lambda>k. neighbour_count s sq k = neighbour_count s sq (fst c)) l"
    by (simp add: xs_def filter_map comp_def cg(2))
  then have fl: "filter (\<lambda>k. neighbour_count s sq k = neighbour_count s sq (fst c)) l =
        fst c # map fst rest"
    using r by simp
  have "sorted_wrt (<) (filter (\<lambda>k. neighbour_count s sq k = neighbour_count s sq (fst c)) l)"
    using assms(3) by (rule sorted_wrt_filter)
  then have lt: "\<forall>d \<in> set (map fst rest). fst c < d"
    unfolding fl by simp
  have tie: "fst c \<le> d"
    if "d \<in> set l" "neighbour_count s sq d = neighbour_count s sq (fst c)" for d
  proof -
    have "d \<in> set (filter (\<lambda>k. neighbour_count s sq k = neighbour_count s sq (fst c)) l)"
      using that by simp
    then have "d = fst c \<or> d \<in> set (map fst rest)"
      unfolding fl by simp
    then show ?thesis using lt by auto
  qed
  show ?thesis
    using lc cg(1) least tie by blast
qed

lemma proper_two_grid: "proper_grid two_grid"
  by (auto simp: proper_grid_def two_grid_def)

lemma grid_at_two:
  "in_range q \<Longrightarrow>
   grid_at two_grid q =
     (if q = (0, 0) \<or> q = (0, 2) then 0 else if q = (5, 2) then 2 else 3)"
  by (cases q)
     (auto simp: grid_at_def two_grid_def in_range_def nth_Cons nth_append split: nat.splits)

lemma two_grid_neighbours:
  assumes "q \<in> set (get_neighbors (0, 0) (True, True, True))"
  shows "in_range q \<and> q \<noteq> (0, 0) \<and> q \<noteq> (5, 2)"
proof -
  have i: "in_range (0, 0)" by (simp add: in_range_def)
  have "in_range q" by (rule in_range_get_neighbors [OF i assms])
  moreover have "q \<noteq> (0, 0) \<and> q \<noteq> (5, 2)"
    using assms by (auto simp: set_get_neighbors [OF i] row_cells_def col_cells_def box_cells_def)
  ultimately show ?thesis by simp
qed

lemma initial_candidates_two_corner:
  "initial_candidates two_grid (0, 0) = [1, 2, 4, 5, 6, 7, 8, 9]"
proof -
  have n: "(0, 3) \<in> set (get_neighbors (0, 0) (True, True, True))"
    by (simp add: set_get_neighbors in_range_def row_cells_def)
  have "(\<forall>q \<in> set (get_neighbors (0, 0) (True, True, True)). grid_at two_grid q \<noteq> d)
        \<longleftrightarrow> d \<noteq> 3" if "d \<in> set [1, 2, 3, 4, 5, 6, 7, 8, 9]" for d
  proof
    assume "\<forall>q \<in> set (get_neighbors (0, 0) (True, True, True)). grid_at two_grid q \<noteq> d"
    then have "grid_at two_grid (0, 3) \<noteq> d" using n by blast
    then show "d \<noteq> 3" by (simp add: grid_at_two in_range_def)
  next
    assume d: "d \<noteq> 3"
    show "\<forall>q \<in> set (get_neighbors (0, 0) (True, True, True)). grid_at two_grid q \<noteq> d"
    proof
      fix q assume "q \<in> set (get_neighbors (0, 0) (True, True, True))"
      then show "grid_at two_grid q \<noteq> d"
        using two_grid_neighbours [of q] d that by (auto simp: grid_at_two)
    qed
  qed
  then have "filter (\<lambda>d. \<forall>q \<in> set (get_neighbors (0, 0) (True, True, True)).
                 grid_at two_grid q \<noteq> d) [1, 2, 3, 4, 5, 6, 7, 8, 9] =
             filter (\<lambda>d. d \<noteq> 3) [1, 2, 3, 4, 5, 6, 7, 8, 9]"
    by (intro filter_cong refl)
  then show ?thesis by (simp add: initial_candidates_def)
qed

lemma initial_candidates_two_other:
  "initial_candidates two_grid (0, 2) = [1, 4, 5, 6, 7, 8, 9]"
proof -
  have i: "in_range (0, 2)" by (simp add: in_range_def)
  have n3: "(0, 3) \<in> set (get_neighbors (0, 2) (True, True, True))"
    by (simp add: set_get_neighbors in_range_def row_cells_def)
  have n2: "(5, 2) \<in> set (get_neighbors (0, 2) (True, True, True))"
    by (simp add: set_get_neighbors in_range_def col_cells_def)
  have "(\<forall>q \<in> set (get_neighbors (0, 2) (True, True, True)). grid_at two_grid q \<noteq> d)
        \<longleftrightarrow> d \<noteq> 3 \<and> d \<noteq> 2" if "d \<in> set [1, 2, 3, 4, 5, 6, 7, 8, 9]" for d
  proof
    assume "\<forall>q \<in> set (get_neighbors (0, 2) (True, True, True)). grid_at two_grid q \<noteq> d"
    then have "grid_at two_grid (0, 3) \<noteq> d" "grid_at two_grid (5, 2) \<noteq> d"
      using n3 n2 by blast+
    then show "d \<noteq> 3 \<and> d \<noteq> 2" by (simp add: grid_at_two in_range_def)
  next
    assume d: "d \<noteq> 3 \<and> d \<noteq> 2"
    show "\<forall>q \<in> set (get_neighbors (0, 2) (True, True, True)). grid_at two_grid q \<noteq> d"
    proof
      fix q assume "q \<in> set (get_neighbors (0, 2) (True, True, True))"
      then have "in_range q" by (rule in_range_get_neighbors [OF i])
      then show "grid_at two_grid q \<noteq> d"
        using d that by (auto simp: grid_at_two)
    qed
  qed
  then have "filter (\<lambda>d. \<forall>q \<in> set (get_neighbors (0, 2) (True, True, True)).
                 grid_at two_grid q \<noteq> d) [1, 2, 3, 4, 5, 6, 7, 8, 9] =
             filter (\<lambda>d. d \<noteq> 3 \<and> d \<noteq> 2) [1, 2, 3, 4, 5, 6, 7, 8, 9]"
    by (intro filter_cong refl)
  then show ?thesis by (simp add: initial_candidates_def)
qed

lemma two_state_at:
  "in_range q \<Longrightarrow>
   get_value_from_pos (SudokuState two_grid) q =
     (if q = (0, 0) then Cands [1, 2, 4, 5, 6, 7, 8, 9]
      else if q = (0, 2) then Cands [1, 4, 5, 6, 7, 8, 9]
      else if q = (5, 2) then Fixed 2 [] else Fixed 3 [])"
  using SudokuState_given [OF proper_two_grid, of q] SudokuState_empty [OF proper_two_grid, of q]
  by (cases "q = (0, 0)"; cases "q = (0, 2)")
     (simp_all add: grid_at_two initial_candidates_two_corner initial_candidates_two_other)

lemma two_state_corner:
  "get_value_from_pos (SudokuState two_grid) (0, 0) = Cands [1, 2, 4, 5, 6, 7, 8, 9]"
  by (simp add: two_state_at in_range_def)

lemma two_state_count:
  "neighbour_count (SudokuState two_grid) (0, 0) d =
     (if d \<in> set [1, 4, 5, 6, 7, 8, 9] then 1 else 0)"
proof -
  let ?P = "\<lambda>q. case get_value_from_pos (SudokuState two_grid) q of
                  Fixed w old \<Rightarrow> False | Cands l \<Rightarrow> d \<in> set l"
  have other: "\<not> ?P q"
    if "q \<in> set (get_neighbors (0, 0) (True, True, True))" "q \<noteq> (0, 2)" for q
    using two_grid_neighbours [OF that(1)] that(2) by (simp add: two_state_at)
  have n: "(0, 2) \<in> set (get_neighbors (0, 0) (True, True, True))"
    by (simp add: set_get_neighbors in_range_def row_cells_def)
  show ?thesis
  proof (cases "d \<in> set [1, 4, 5, 6, 7, 8, 9]")
    case True
    then have "?P (0, 2)" by (simp add: two_state_at in_range_def)
    then have "filter ?P (get_neighbors (0, 0) (True, True, True)) = [(0, 2)]"
      using other n by (intro filter_single distinct_get_neighbors) blast+
    then show ?thesis using True by (simp add: neighbour_count_def)
  next
    case False
    then have "\<not> ?P (0, 2)" by (simp add: two_state_at in_range_def)
    then have "filter ?P (get_neighbors (0, 0) (True, True, True)) = []"
      using other by (auto simp: filter_empty_conv)
    then show ?thesis using False by (simp add: neighbour_count_def)
  qed
qed

text \<open>
  Claim C8: at a turn of the loop of \<open>solve\<close>, when the chosen square holds a nonempty
  list, the digit tried is \<open>least_constraining_value\<close> of the state of that turn: a digit
  of the list with the least number of empty neighbours listing it and, among the digits
  with that number, the smallest. The turn calls \<open>fill_in_square\<close> with this digit, and
  the next turn starts from the state left by the analysis (or by the guess), for which
  the digit is chosen anew.
\<close>

theorem guess_least_constraining:
  assumes "reachable s" "in_range sq" "get_value_from_pos s sq = Cands l" "l \<noteq> []"
  shows "\<exists>g. least_constraining_value s sq = Inr g \<and> g \<in> set l \<and>
     (\<forall>d \<in> set l. neighbour_count s sq g \<le> neighbour_count s sq d \<and>
        (neighbour_count s sq d = neighbour_count s sq g \<longrightarrow> g \<le> d)) \<and>
     solve_loop (Suc n) sq s state_copy =
       (case fill_in_square n s sq g of
          None \<Rightarrow> None
        | Raise e \<Rightarrow> Raise e
        | Return (outcome_of_fill, s1) \<Rightarrow>
           (case (if outcome_of_fill = 0 then solve n s1 else Return (outcome_of_fill, s1)) of
              None \<Rightarrow> None
            | Raise e \<Rightarrow> Raise e
            | Return (outcome_of_guess, s2) \<Rightarrow>
                if outcome_of_guess = 1 then Return (1, s2)
                else if outcome_of_guess = - 1
                then (case remove_value state_copy sq g of
                        Inl e \<Rightarrow> Raise e
                      | Inr s3 \<Rightarrow>
                         (case analise_empty_value n s3 sq of
                            None \<Rightarrow> None
                          | Raise e \<Rightarrow> Raise e
                          | Return (outcome_of_analysis, s4) \<Rightarrow>
                              if outcome_of_analysis = - 1 then Return (- 1, s4)
                              else solve_loop n sq s4 s4))
                else solve_loop n sq s2 state_copy))"
proof -
  have "sorted_wrt (<) l"
    using lists_okD [of s sq] reachable_good [OF assms(1)] assms(2,3) by (simp add: good_def)
  then obtain g where g: "least_constraining_value s sq = Inr g" "g \<in> set l"
    "\<forall>d \<in> set l. neighbour_count s sq g \<le> neighbour_count s sq d \<and>
        (neighbour_count s sq d = neighbour_count s sq g \<longrightarrow> g \<le> d)"
    using least_constraining_value_least [OF assms(3,4)] by blast
  have "solve_loop (Suc n) sq s state_copy =
       (case fill_in_square n s sq g of
          None \<Rightarrow> None
        | Raise e \<Rightarrow> Raise e
        | Return (outcome_of_fill, s1) \<Rightarrow>
           (case (if outcome_of_fill = 0 then solve n s1 else Return (outcome_of_fill, s1)) of
              None \<Rightarrow> None
            | Raise e \<Rightarrow> Raise e
            | Return (outcome_of_guess, s2) \<Rightarrow>
                if outcome_of_guess = 1 then Return (1, s2)
                else if outcome_of_guess = - 1
                then (case remove_value state_copy sq g of
                        Inl e \<Rightarrow> Raise e
                      | Inr s3 \<Rightarrow>
                         (case analise_empty_value n s3 sq of
                            None \<Rightarrow> None
                          | Raise e \<Rightarrow> Raise e
                          | Return (outcome_of_analysis, s4) \<Rightarrow>
                              if outcome_of_analysis = - 1 then Return (- 1, s4)
                              else solve_loop n sq s4 s4))
                else solve_loop n sq s2 state_copy))"
    by (subst solve_loop.simps)
       (simp add: solve_while_def assms(3,4) g(1)
          del: solve.simps solve_loop.simps fill_in_square.simps)
  then show ?thesis using g by blast
qed

theorem guess_least_constraining_witness:
  "reachable (SudokuState two_grid) \<and> in_range (0, 0) \<and>
   get_value_from_pos (SudokuState two_grid) (0, 0) = Cands [1, 2, 4, 5, 6, 7, 8, 9] \<and>
   [1, 2, 4, 5, 6, 7, 8, 9 :: int] \<noteq> [] \<and>
   neighbour_count (SudokuState two_grid) (0, 0) 1 = 1 \<and>
   neighbour_count (SudokuState two_grid) (0, 0) 2 = 0 \<and>
   least_constraining_value (SudokuState two_grid) (0, 0) = Inr 2"
proof -
  have r: "reachable (SudokuState two_grid)"
    by (rule reachable.construct [OF proper_two_grid])
  have i: "in_range (0, 0)" by (simp add: in_range_def)
  have ne: "[1, 2, 4, 5, 6, 7, 8, 9 :: int] \<noteq> []" by simp
  obtain g where g: "least_constraining_value (SudokuState two_grid) (0, 0) = Inr g"
    "g \<in> set [1, 2, 4, 5, 6, 7, 8, 9]"
    "\<forall>d \<in> set [1, 2, 4, 5, 6, 7, 8, 9].
       neighbour_count (SudokuState two_grid) (0, 0) g
         \<le> neighbour_count (SudokuState two_grid) (0, 0) d"
    using guess_least_constraining [OF r i two_state_corner ne, of 0 "SudokuState two_grid"]
    by blast
  have "neighbour_count (SudokuState two_grid) (0, 0) g
          \<le> neighbour_count (SudokuState two_grid) (0, 0) 2"
    using g(3) by simp
  then have "neighbour_count (SudokuState two_grid) (0, 0) g = 0"
    by (simp add: two_state_count)
  then have "g = 2"
    using g(2) by (auto simp: two_state_count split: if_splits)
  then show ?thesis
    using g(1) r i two_state_corner by (simp add: two_state_count)
qed

end
